theory Spec2Isabelle
  imports Complex_Main "HOL-Library.Word"
begin

unbundle bit_operations_syntax

section \<open>JavaScript numbers and errors\<close>

text \<open>
  The samples of a \<^verbatim>\<open>Float32Array\<close> and the clock readings of an \<^verbatim>\<open>AudioContext\<close> are IEEE
  numbers. A finite one is modelled by the real it denotes; the two infinities and NaN are
  kept apart, since \<^verbatim>\<open>Math.min\<close>, \<^verbatim>\<open>Math.max\<close>, \<^verbatim>\<open><\<close> and the conversion to a
  typed-array element treat them specially. The products formed by the codec are exact in
  double precision when the sample is a 32-bit float (a 24-bit significand times a 15- or
  16-bit constant), and the quotient of a 16-bit integer by 32768 is exact in single
  precision, so on such samples no rounding separates the model from the code.
\<close>

datatype number = Fin real | PosInf | NegInf | NaN

datatype js_error = RangeError | NotSupportedError | InvalidCharacterError

fun Math_min :: "number \<Rightarrow> number \<Rightarrow> number" where
  "Math_min NaN _ = NaN"
| "Math_min _ NaN = NaN"
| "Math_min NegInf _ = NegInf"
| "Math_min _ NegInf = NegInf"
| "Math_min PosInf y = y"
| "Math_min x PosInf = x"
| "Math_min (Fin a) (Fin b) = Fin (min a b)"

fun Math_max :: "number \<Rightarrow> number \<Rightarrow> number" where
  "Math_max NaN _ = NaN"
| "Math_max _ NaN = NaN"
| "Math_max PosInf _ = PosInf"
| "Math_max _ PosInf = PosInf"
| "Math_max NegInf y = y"
| "Math_max x NegInf = x"
| "Math_max (Fin a) (Fin b) = Fin (max a b)"

text \<open>The comparison \<^verbatim>\<open>a < b\<close>: false as soon as one side is NaN.\<close>

fun less_number :: "number \<Rightarrow> number \<Rightarrow> bool" where
  "less_number NaN _ = False"
| "less_number _ NaN = False"
| "less_number (Fin a) (Fin b) = (a < b)"
| "less_number NegInf NegInf = False"
| "less_number NegInf _ = True"
| "less_number _ NegInf = False"
| "less_number PosInf _ = False"
| "less_number (Fin a) PosInf = True"

text \<open>The product \<^verbatim>\<open>a * b\<close>: an infinity times zero is NaN.\<close>

fun sign_inf :: "real \<Rightarrow> number" where
  "sign_inf r = (if r = 0 then NaN else if 0 < r then PosInf else NegInf)"

fun times_number :: "number \<Rightarrow> number \<Rightarrow> number" where
  "times_number NaN _ = NaN"
| "times_number _ NaN = NaN"
| "times_number (Fin a) (Fin b) = Fin (a * b)"
| "times_number PosInf (Fin b) = sign_inf b"
| "times_number (Fin a) PosInf = sign_inf a"
| "times_number NegInf (Fin b) = sign_inf (- b)"
| "times_number (Fin a) NegInf = sign_inf (- a)"
| "times_number PosInf PosInf = PosInf"
| "times_number NegInf NegInf = PosInf"
| "times_number PosInf NegInf = NegInf"
| "times_number NegInf PosInf = NegInf"

text \<open>
  Storing a number into an \<^verbatim>\<open>Int16Array\<close> applies ToInt16: NaN and the infinities become 0,
  a finite number is truncated towards zero and then reduced modulo \<open>2 ^ 16\<close>.
\<close>

definition js_truncate :: "real \<Rightarrow> int" where
  "js_truncate r = (if r < 0 then \<lceil>r\<rceil> else \<lfloor>r\<rfloor>)"

fun ToInt16 :: "number \<Rightarrow> 16 word" where
  "ToInt16 (Fin r) = word_of_int (js_truncate r)"
| "ToInt16 _ = 0"

section \<open>Binary strings and base64 (\<^verbatim>\<open>btoa\<close>, \<^verbatim>\<open>atob\<close>)\<close>

definition b64_alphabet :: string where
  "b64_alphabet = ''ABCDEFGHIJKLMNOPQRSTUVWXYZabcdefghijklmnopqrstuvwxyz0123456789+/''"

definition b64_char :: "nat \<Rightarrow> char" where
  "b64_char n = b64_alphabet ! n"

fun index_of :: "'a \<Rightarrow> 'a list \<Rightarrow> nat option" where
  "index_of x [] = None"
| "index_of x (y # ys) = (if x = y then Some 0 else map_option Suc (index_of x ys))"

definition b64_index :: "char \<Rightarrow> nat option" where
  "b64_index c = index_of c b64_alphabet"

text \<open>
  \<^verbatim>\<open>btoa\<close> reads the string three code units at a time; a last group of one or two code
  units is padded with \<^verbatim>\<open>=\<close>. It throws on a code unit above 255, which a \<^typ>\<open>char\<close>
  cannot hold.
\<close>

fun b64_encode :: "nat list \<Rightarrow> string" where
  "b64_encode (a # b # c # rest) =
     [b64_char (a div 4), b64_char ((a mod 4) * 16 + b div 16),
      b64_char ((b mod 16) * 4 + c div 64), b64_char (c mod 64)] @ b64_encode rest"
| "b64_encode [a, b] =
     [b64_char (a div 4), b64_char ((a mod 4) * 16 + b div 16),
      b64_char ((b mod 16) * 4), CHR ''='']"
| "b64_encode [a] =
     [b64_char (a div 4), b64_char ((a mod 4) * 16), CHR ''='', CHR ''='']"
| "b64_encode [] = []"

definition btoa :: "string \<Rightarrow> string" where
  "btoa binary = b64_encode (map of_char binary)"

text \<open>
  The six-bit groups that \<^verbatim>\<open>btoa\<close> writes before it pads: \<open>b64_encode\<close> is their image
  under \<open>b64_char\<close>, followed by the padding.
\<close>

fun b64_sextets :: "nat list \<Rightarrow> nat list" where
  "b64_sextets (a # b # c # rest) =
     [a div 4, (a mod 4) * 16 + b div 16, (b mod 16) * 4 + c div 64, c mod 64] @ b64_sextets rest"
| "b64_sextets [a, b] = [a div 4, (a mod 4) * 16 + b div 16, (b mod 16) * 4]"
| "b64_sextets [a] = [a div 4, (a mod 4) * 16]"
| "b64_sextets [] = []"

text \<open>
  \<^verbatim>\<open>atob\<close> is the forgiving base64 decoder: ASCII whitespace is removed; when the length is
  then a multiple of 4, one or two trailing \<^verbatim>\<open>=\<close> are removed; a length of 1 modulo 4 or a
  character outside the alphabet throws InvalidCharacterError; the leftover bits of a last
  group of two or three characters are dropped.
\<close>

definition ascii_whitespace :: "char \<Rightarrow> bool" where
  "ascii_whitespace c = (c \<in> set [CHR 0x09, CHR 0x0A, CHR 0x0C, CHR 0x0D, CHR 0x20])"

definition strip_padding :: "string \<Rightarrow> string" where
  "strip_padding d =
     (if length d mod 4 = 0 \<and> d \<noteq> [] \<and> last d = CHR ''='' then
        (if last (butlast d) = CHR ''='' then butlast (butlast d) else butlast d)
      else d)"

fun b64_decode :: "nat list \<Rightarrow> nat list" where
  "b64_decode (a # b # c # d # rest) =
     [a * 4 + b div 16, (b mod 16) * 16 + c div 4, (c mod 4) * 64 + d] @ b64_decode rest"
| "b64_decode [a, b, c] = [a * 4 + b div 16, (b mod 16) * 16 + c div 4]"
| "b64_decode [a, b] = [a * 4 + b div 16]"
| "b64_decode _ = []"

definition atob :: "string \<Rightarrow> js_error + string" where
  "atob base64 =
     (let d = strip_padding (filter (\<lambda>c. \<not> ascii_whitespace c) base64)
      in if length d mod 4 = 1 \<or> (\<exists>c \<in> set d. b64_index c = None)
         then Inl InvalidCharacterError
         else Inr (map char_of (b64_decode (map (\<lambda>c. the (b64_index c)) d))))"

section \<open>The PCM codec (\<^verbatim>\<open>src/utils/audioUtils.ts\<close>)\<close>

text \<open>One iteration of the first loop of \<^verbatim>\<open>float32ToBase64\<close>: clamp, scale, store.\<close>

definition clamp_sample :: "number \<Rightarrow> number" where
  "clamp_sample x = Math_max (Fin (- 1)) (Math_min (Fin 1) x)"

definition scale_sample :: "number \<Rightarrow> number" where
  "scale_sample x =
     (let s = clamp_sample x
      in if less_number s (Fin 0) then times_number s (Fin 0x8000)
         else times_number s (Fin 0x7FFF))"

definition encode_sample :: "number \<Rightarrow> 16 word" where
  "encode_sample x = ToInt16 (scale_sample x)"

text \<open>
  \<^verbatim>\<open>new Uint8Array(int16.buffer)\<close> views each element as two bytes in the byte order of the
  platform, which is the low byte first wherever browsers run; the decoder reads the pairs
  back in the same order.
\<close>

definition int16_bytes :: "16 word \<Rightarrow> 8 word list" where
  "int16_bytes w = [ucast w, ucast (drop_bit 8 w)]"

definition fromCharCode :: "8 word \<Rightarrow> char" where
  "fromCharCode b = char_of (unat b)"

definition charCodeAt :: "char \<Rightarrow> 8 word" where
  "charCodeAt c = word_of_nat (of_char c)"

definition float32ToBase64 :: "number list \<Rightarrow> string" where
  "float32ToBase64 data =
     (let int16 = map encode_sample data;
          bytes = concat (map int16_bytes int16);
          binary = map fromCharCode bytes
      in btoa binary)"

record audio_buffer =
  numberOfChannels :: nat
  sampleRate :: nat
  channelData :: "real list"

definition duration :: "audio_buffer \<Rightarrow> real" where
  "duration b = real (length (channelData b)) / real (sampleRate b)"

text \<open>
  \<^verbatim>\<open>new Int16Array(bytes.buffer)\<close> throws a RangeError when the byte length of the buffer is
  odd; otherwise each pair of bytes, low byte first, is one element.
\<close>

fun int16_of_bytes :: "8 word list \<Rightarrow> 16 word list" where
  "int16_of_bytes (lo # hi # rest) = word_cat hi lo # int16_of_bytes rest"
| "int16_of_bytes _ = []"

definition new_Int16Array :: "8 word list \<Rightarrow> js_error + 16 word list" where
  "new_Int16Array bytes =
     (if odd (length bytes) then Inl RangeError else Inr (int16_of_bytes bytes))"

text \<open>
  \<^verbatim>\<open>ctx.createBuffer\<close> throws a NotSupportedError when the channel count or the frame count
  is zero or the sample rate is outside the range \<open>8000..96000\<close> that every implementation
  accepts (the code only ever passes 24000); the new buffer is filled with zeros.
\<close>

definition createBuffer :: "nat \<Rightarrow> nat \<Rightarrow> nat \<Rightarrow> js_error + audio_buffer" where
  "createBuffer channels frameCount rate =
     (if channels = 0 \<or> frameCount = 0 \<or> rate < 8000 \<or> 96000 < rate
      then Inl NotSupportedError
      else Inr \<lparr>numberOfChannels = channels, sampleRate = rate,
                channelData = replicate frameCount 0\<rparr>)"

definition decode_sample :: "16 word \<Rightarrow> real" where
  "decode_sample w = real_of_int (sint w) / 32768"

definition base64ToAudioBuffer :: "string \<Rightarrow> nat \<Rightarrow> js_error + audio_buffer" where
  "base64ToAudioBuffer base64 rate =
     (case atob base64 of
        Inl e \<Rightarrow> Inl e
      | Inr binaryString \<Rightarrow>
          (case new_Int16Array (map charCodeAt binaryString) of
             Inl e \<Rightarrow> Inl e
           | Inr int16 \<Rightarrow>
               (case createBuffer 1 (length int16) rate of
                  Inl e \<Rightarrow> Inl e
                | Inr buffer \<Rightarrow> Inr (buffer\<lparr>channelData := map decode_sample int16\<rparr>))))"

section \<open>The live voice session (\<^verbatim>\<open>ChatInterface\<close>)\<close>

subsection \<open>The output audio context\<close>

text \<open>
  An \<^verbatim>\<open>AudioBufferSourceNode\<close> as the scheduler uses it: the buffer it renders, the time given
  to \<^verbatim>\<open>start\<close>, and the time at which \<^verbatim>\<open>stop()\<close> was called, if it was. An \<^verbatim>\<open>AudioContext\<close> is
  its clock (in seconds) together with the source nodes created on it; a node is referred to
  by its position in that list.
\<close>

record source_node =
  node_buffer :: audio_buffer
  startTime :: real
  stopTime :: "real option"

record audio_context =
  currentTime :: real
  nodes :: "source_node list"

text \<open>
  A node renders its buffer from its start time for the buffer's duration, and nothing from
  the moment it is stopped.
\<close>

definition audible :: "source_node \<Rightarrow> real \<Rightarrow> bool" where
  "audible n t \<longleftrightarrow>
     startTime n \<le> t \<and> t < startTime n + duration (node_buffer n) \<and>
     (case stopTime n of None \<Rightarrow> True | Some ts \<Rightarrow> t < ts)"

definition finished :: "audio_context \<Rightarrow> source_node \<Rightarrow> bool" where
  "finished c n \<longleftrightarrow>
     stopTime n \<noteq> None \<or> startTime n + duration (node_buffer n) \<le> currentTime c"

text \<open>\<^verbatim>\<open>source.stop()\<close>: the node stops at the current time; a second call changes nothing.\<close>

definition stop_node :: "real \<Rightarrow> source_node \<Rightarrow> source_node" where
  "stop_node now n = (case stopTime n of None \<Rightarrow> n\<lparr>stopTime := Some now\<rparr> | Some _ \<Rightarrow> n)"

fun stop_all :: "nat list \<Rightarrow> audio_context \<Rightarrow> audio_context" where
  "stop_all [] c = c"
| "stop_all (i # is) c =
     stop_all is
       (if i < length (nodes c)
        then c\<lparr>nodes := (nodes c)[i := stop_node (currentTime c) (nodes c ! i)]\<rparr>
        else c)"

subsection \<open>Component state\<close>

datatype message_role = USER | MODEL | SYSTEM

text \<open>
  The progress of one \<^verbatim>\<open>handleSendText\<close> call across its two \<^verbatim>\<open>await\<close>s; the flag kept while
  waiting for the reply is the value of \<^verbatim>\<open>isVoiceMode\<close> that the call closed over.
\<close>

datatype text_request = NoRequest | AwaitReply bool | AwaitSpeech

datatype 'a settled = Fulfilled 'a | Rejected

record chat =
  messages :: "(message_role \<times> string) list"
  input :: string
  isTextLoading :: bool
  isVoiceMode :: bool
  aiSpeaking :: bool
  outputAudioContextRef :: "audio_context option"
  nextStartTimeRef :: real
  activeSourcesRef :: "nat list"
  mountedRef :: bool
  isInterruptedRef :: bool
  textRequest :: text_request
  wallClock :: nat
  timeouts :: "nat list"

text \<open>
  \<open>wallClock\<close> is the timer clock in milliseconds and \<open>timeouts\<close> holds the due times of the
  pending \<^verbatim>\<open>setTimeout\<close> callbacks; the component registers only one callback,
  \<^verbatim>\<open>() => { if (mountedRef.current) setAiSpeaking(false); }\<close>.
\<close>

text \<open>The component as mounted (the text of the welcome message is abbreviated).\<close>

definition initial_chat :: chat where
  "initial_chat =
     \<lparr>messages = [(MODEL, ''welcome'')], input = [], isTextLoading = False,
      isVoiceMode = False, aiSpeaking = False, outputAudioContextRef = None,
      nextStartTimeRef = 0, activeSourcesRef = [], mountedRef = True,
      isInterruptedRef = False, textRequest = NoRequest, wallClock = 0, timeouts = []\<rparr>"

text \<open>
  The part of \<^verbatim>\<open>toggleVoiceMode\<close> and \<^verbatim>\<open>connectVoiceSession\<close> that the scheduler depends on:
  voice mode is on and a fresh output context exists.
\<close>

definition voice_session :: "chat \<Rightarrow> chat" where
  "voice_session s =
     s\<lparr>isVoiceMode := True, outputAudioContextRef := Some \<lparr>currentTime = 0, nodes = []\<rparr>\<rparr>"

subsection \<open>\<^verbatim>\<open>playAudioResponse\<close> and \<^verbatim>\<open>stopAudioOutput\<close>\<close>

definition playAudioResponse :: "audio_buffer \<Rightarrow> chat \<Rightarrow> chat" where
  "playAudioResponse buffer s =
     (case outputAudioContextRef s of
        None \<Rightarrow> s
      | Some ctx \<Rightarrow>
          let now = currentTime ctx;
              next = (if nextStartTimeRef s < now then now
                      else if nextStartTimeRef s > now + 0.5 \<and> length (activeSourcesRef s) = 0
                      then now
                      else nextStartTimeRef s);
              source = \<lparr>node_buffer = buffer, startTime = next, stopTime = None\<rparr>
          in s\<lparr>outputAudioContextRef := Some (ctx\<lparr>nodes := nodes ctx @ [source]\<rparr>),
               nextStartTimeRef := next + duration buffer,
               activeSourcesRef := activeSourcesRef s @ [length (nodes ctx)]\<rparr>)"

text \<open>The \<^verbatim>\<open>onended\<close> handler installed by \<^verbatim>\<open>playAudioResponse\<close>.\<close>

definition onended :: "nat \<Rightarrow> chat \<Rightarrow> chat" where
  "onended i s = s\<lparr>activeSourcesRef := removeAll i (activeSourcesRef s)\<rparr>"

definition setAiSpeaking_if_mounted :: "bool \<Rightarrow> chat \<Rightarrow> chat" where
  "setAiSpeaking_if_mounted b s = (if mountedRef s then s\<lparr>aiSpeaking := b\<rparr> else s)"

definition stopAudioOutput :: "chat \<Rightarrow> chat" where
  "stopAudioOutput s =
     (let s1 = (case outputAudioContextRef s of
                  None \<Rightarrow> s\<lparr>activeSourcesRef := []\<rparr>
                | Some ctx \<Rightarrow>
                    s\<lparr>outputAudioContextRef := Some (stop_all (activeSourcesRef s) ctx),
                      activeSourcesRef := [],
                      nextStartTimeRef := currentTime ctx\<rparr>)
      in setAiSpeaking_if_mounted False s1)"

subsection \<open>\<^verbatim>\<open>handleLiveMessage\<close>\<close>

text \<open>
  The fields of a \<^verbatim>\<open>LiveServerMessage\<close> that the handler reads; \<open>audioData\<close> is
  \<^verbatim>\<open>serverContent.modelTurn.parts[0].inlineData.data\<close>, absent when any link of that chain is.
\<close>

record live_message =
  interrupted :: bool
  turnComplete :: bool
  audioData :: "string option"

definition truthy :: "string option \<Rightarrow> bool" where
  "truthy d = (case d of None \<Rightarrow> False | Some str \<Rightarrow> str \<noteq> [])"

definition handleLiveMessage :: "live_message \<Rightarrow> chat \<Rightarrow> chat" where
  "handleLiveMessage message s =
     (if interrupted message then (stopAudioOutput s)\<lparr>isInterruptedRef := True\<rparr>
      else
        let s1 = (if turnComplete message
                  then s\<lparr>isInterruptedRef := False,
                         timeouts := timeouts s @ [wallClock s + 500]\<rparr>
                  else s)
        in if truthy (audioData message) \<and> outputAudioContextRef s1 \<noteq> None \<and>
              \<not> isInterruptedRef s1
           then
             let s2 = s1\<lparr>aiSpeaking := True\<rparr>
             in (case base64ToAudioBuffer (the (audioData message)) 24000 of
                   Inl e \<Rightarrow> s2
                 | Inr audioBuffer \<Rightarrow> playAudioResponse audioBuffer s2)
           else s1)"

subsection \<open>\<^verbatim>\<open>handleSendText\<close>\<close>

text \<open>
  \<^verbatim>\<open>!input.trim()\<close>: the input consists of white space only. \<open>js_whitespace\<close> lists the code
  units that \<^verbatim>\<open>String.prototype.trim\<close> strips (white space and line terminators); a
  \<^typ>\<open>char\<close> is read as the code unit of the same number, so of these the input of the model
  can hold the ASCII ones and U+00A0.
\<close>

definition js_whitespace :: "nat \<Rightarrow> bool" where
  "js_whitespace n \<longleftrightarrow>
     n \<in> set [0x09, 0x0A, 0x0B, 0x0C, 0x0D, 0x20, 0xA0, 0x1680, 0x2028, 0x2029, 0x202F,
               0x205F, 0x3000, 0xFEFF] \<or>
     (0x2000 \<le> n \<and> n \<le> 0x200A)"

definition trim_empty :: "string \<Rightarrow> bool" where
  "trim_empty str = (\<forall>c \<in> set str. js_whitespace (of_char c))"

text \<open>Up to the first \<^verbatim>\<open>await\<close>.\<close>

definition handleSendText :: "chat \<Rightarrow> chat" where
  "handleSendText s =
     (if trim_empty (input s) \<or> isTextLoading s then s
      else
        let s1 = (if isVoiceMode s then (stopAudioOutput s)\<lparr>isInterruptedRef := True\<rparr> else s)
        in s1\<lparr>messages := messages s1 @ [(USER, input s)], input := [],
               isTextLoading := True, textRequest := AwaitReply (isVoiceMode s)\<rparr>)"

definition handleSendText_finally :: "chat \<Rightarrow> chat" where
  "handleSendText_finally s =
     s\<lparr>isTextLoading := False, isInterruptedRef := False, textRequest := NoRequest\<rparr>"

text \<open>
  After \<^verbatim>\<open>await sendMessageToNexus(...)\<close> has settled: the reply is appended and, in voice
  mode, speech is requested; a rejection goes to \<^verbatim>\<open>catch\<close> and \<^verbatim>\<open>finally\<close>.
\<close>

definition handleSendText_reply :: "string settled \<Rightarrow> chat \<Rightarrow> chat" where
  "handleSendText_reply r s =
     (case textRequest s of
        AwaitReply voice \<Rightarrow>
          (case r of
             Rejected \<Rightarrow> handleSendText_finally s
           | Fulfilled text \<Rightarrow>
               let s1 = s\<lparr>messages := messages s @ [(MODEL, text)]\<rparr>
               in if voice \<and> mountedRef s1 then s1\<lparr>textRequest := AwaitSpeech\<rparr>
                  else handleSendText_finally s1)
      | _ \<Rightarrow> s)"

text \<open>
  After \<^verbatim>\<open>await generateSpeech(...)\<close> has settled: the inner \<^verbatim>\<open>try\<close> swallows a rejection and
  an exception of the decoder, then \<^verbatim>\<open>finally\<close> runs.
\<close>

definition handleSendText_speech :: "string settled \<Rightarrow> chat \<Rightarrow> chat" where
  "handleSendText_speech r s =
     (case textRequest s of
        AwaitSpeech \<Rightarrow>
          handleSendText_finally
            (case r of
               Rejected \<Rightarrow> s
             | Fulfilled base64Audio \<Rightarrow>
                 (if outputAudioContextRef s \<noteq> None
                  then (case base64ToAudioBuffer base64Audio 24000 of
                          Inl e \<Rightarrow> s
                        | Inr buffer \<Rightarrow> playAudioResponse buffer s)
                  else s))
      | _ \<Rightarrow> s)"

subsection \<open>Events of a session\<close>

text \<open>
  What can happen to the component while the output context stays the same: the audio clock
  advances, a source node that has finished or was stopped fires \<^verbatim>\<open>ended\<close>, the timer clock
  advances and due timeouts run, a server message arrives, the user submits text, and the
  two requests of a submission settle.
\<close>

datatype event =
    AudioTime real
  | Ended nat
  | WallTime nat
  | LiveMessage live_message
  | SubmitText string
  | TextReply "string settled"
  | SpeechReply "string settled"
  | Unmount

definition advance_audio :: "real \<Rightarrow> chat \<Rightarrow> chat" where
  "advance_audio dt s =
     (case outputAudioContextRef s of
        None \<Rightarrow> s
      | Some ctx \<Rightarrow>
          if 0 \<le> dt
          then s\<lparr>outputAudioContextRef := Some (ctx\<lparr>currentTime := currentTime ctx + dt\<rparr>)\<rparr>
          else s)"

definition fire_ended :: "nat \<Rightarrow> chat \<Rightarrow> chat" where
  "fire_ended i s =
     (case outputAudioContextRef s of
        None \<Rightarrow> s
      | Some ctx \<Rightarrow>
          if i < length (nodes ctx) \<and> finished ctx (nodes ctx ! i) then onended i s else s)"

definition advance_wall :: "nat \<Rightarrow> chat \<Rightarrow> chat" where
  "advance_wall ms s =
     (let now = wallClock s + ms;
          due = filter (\<lambda>t. t \<le> now) (timeouts s);
          s1 = s\<lparr>wallClock := now, timeouts := filter (\<lambda>t. \<not> t \<le> now) (timeouts s)\<rparr>
      in if due = [] then s1 else setAiSpeaking_if_mounted False s1)"

fun step :: "event \<Rightarrow> chat \<Rightarrow> chat" where
  "step (AudioTime dt) s = advance_audio dt s"
| "step (Ended i) s = fire_ended i s"
| "step (WallTime ms) s = advance_wall ms s"
| "step (LiveMessage m) s = handleLiveMessage m s"
| "step (SubmitText str) s = handleSendText (s\<lparr>input := str\<rparr>)"
| "step (TextReply r) s = handleSendText_reply r s"
| "step (SpeechReply r) s = handleSendText_speech r s"
| "step Unmount s = s\<lparr>mountedRef := False\<rparr>"

fun run :: "event list \<Rightarrow> chat \<Rightarrow> chat" where
  "run [] s = s"
| "run (e # es) s = run es (step e s)"

text \<open>
  The scheduler's bookkeeping is sound when every node of the context that is neither stopped
  nor past its end is in the active set, and no node was stopped in the future.
\<close>

definition node_ok :: "audio_context \<Rightarrow> nat list \<Rightarrow> nat \<Rightarrow> bool" where
  "node_ok ctx active i \<longleftrightarrow>
     (\<not> finished ctx (nodes ctx ! i) \<longrightarrow> i \<in> set active) \<and>
     (case stopTime (nodes ctx ! i) of None \<Rightarrow> True | Some ts \<Rightarrow> ts \<le> currentTime ctx)"

definition live_inv :: "chat \<Rightarrow> bool" where
  "live_inv s \<longleftrightarrow>
     (case outputAudioContextRef s of
        None \<Rightarrow> True
      | Some ctx \<Rightarrow> \<forall>i < length (nodes ctx). node_ok ctx (activeSourcesRef s) i)"

text \<open>
  How a context can differ from an earlier state of itself: the clock has not gone back,
  the old nodes keep their buffer, their start time and a stop time once set, and every
  node added since starts no earlier than the earlier clock reading.
\<close>

definition ctx_extends :: "audio_context \<Rightarrow> audio_context \<Rightarrow> bool" where
  "ctx_extends c c' \<longleftrightarrow>
     currentTime c \<le> currentTime c' \<and> length (nodes c) \<le> length (nodes c') \<and>
     (\<forall>i < length (nodes c).
        node_buffer (nodes c' ! i) = node_buffer (nodes c ! i) \<and>
        startTime (nodes c' ! i) = startTime (nodes c ! i) \<and>
        (stopTime (nodes c ! i) \<noteq> None \<longrightarrow> stopTime (nodes c' ! i) = stopTime (nodes c ! i))) \<and>
     (\<forall>i < length (nodes c').
        length (nodes c) \<le> i \<longrightarrow> currentTime c \<le> startTime (nodes c' ! i))"

section \<open>The narration player (\<^verbatim>\<open>AudioPlayer\<close>)\<close>

subsection \<open>State\<close>

record text_chunk =
  chunk_id :: nat
  title :: string
  content :: string

text \<open>
  Each run of the load effect has its own closure: the chunk and the play intent of the
  render that created it, and its \<^verbatim>\<open>active\<close> flag. Effects are numbered in the order in which
  they ran. A pending \<^verbatim>\<open>setTimeout(loadAudio, 1000)\<close> is its identifier (a positive integer,
  so always truthy), the time it is due and the effect whose \<^verbatim>\<open>loadAudio\<close> it will call.
\<close>

record load_effect =
  eff_chunk :: text_chunk
  eff_isPlaying :: bool
  active :: bool

record timer =
  timer_id :: nat
  due :: nat
  timer_eff :: nat

text \<open>
  \<open>audioCache\<close> is the module-level map; \<open>clock\<close> (milliseconds), \<open>timers\<close> and \<open>nextTimerId\<close>
  are the browser's timer table; \<open>inflight\<close> lists the effects whose \<^verbatim>\<open>loadAudio\<close> is suspended
  at \<^verbatim>\<open>await generateSpeech(...)\<close>, and \<open>fetches\<close> logs the chunks for which \<^verbatim>\<open>generateSpeech\<close>
  was called. The remaining fields are the component's props, state and refs;
  \<open>audioContextRef\<close> tells whether the ref holds a context, \<open>sourceRef\<close> the buffer of the
  current source node. The progress loop of \<^verbatim>\<open>playBuffer\<close> is left out, and
  \<^verbatim>\<open>audioContextRef.current.resume()\<close> is taken to complete at once.
\<close>

record player =
  audioCache :: "nat \<rightharpoonup> audio_buffer"
  mounted :: bool
  currentChunk :: text_chunk
  isPlaying :: bool
  progress :: real
  isLoading :: bool
  error :: "string option"
  retryTrigger :: nat
  audioContextRef :: bool
  sourceRef :: "audio_buffer option"
  loadingTimeoutRef :: "nat option"
  effects :: "load_effect list"
  clock :: nat
  timers :: "timer list"
  nextTimerId :: nat
  inflight :: "nat list"
  fetches :: "text_chunk list"

subsection \<open>Playback helpers and the decoder\<close>

definition stopPlayback :: "player \<Rightarrow> player" where
  "stopPlayback s = s\<lparr>sourceRef := None\<rparr>"

definition playBuffer :: "audio_buffer \<Rightarrow> player \<Rightarrow> player" where
  "playBuffer buffer s =
     (if \<not> audioContextRef s then s else (stopPlayback s)\<lparr>sourceRef := Some buffer\<rparr>)"

definition decodeAudio :: "string \<Rightarrow> js_error + audio_buffer" where
  "decodeAudio base64 =
     (case atob base64 of
        Inl e \<Rightarrow> Inl e
      | Inr binaryString \<Rightarrow>
          (case new_Int16Array (map charCodeAt binaryString) of
             Inl e \<Rightarrow> Inl e
           | Inr pcm16 \<Rightarrow>
               (case createBuffer 1 (length pcm16) 24000 of
                  Inl e \<Rightarrow> Inl e
                | Inr audioBuffer \<Rightarrow>
                    Inr (audioBuffer\<lparr>channelData := map decode_sample pcm16\<rparr>))))"

subsection \<open>\<^verbatim>\<open>loadAudio\<close>\<close>

text \<open>The last block of the \<^verbatim>\<open>try\<close>: \<^verbatim>\<open>if (active) { setIsLoading(false); if (isPlaying) ... }\<close>.\<close>

definition finish_load :: "nat \<Rightarrow> audio_buffer \<Rightarrow> player \<Rightarrow> player" where
  "finish_load e buffer s =
     (if active (effects s ! e)
      then let s1 = s\<lparr>isLoading := False\<rparr>
           in if eff_isPlaying (effects s ! e) then playBuffer buffer s1 else s1
      else s)"

text \<open>The \<^verbatim>\<open>catch\<close> block.\<close>

definition catch_load :: "nat \<Rightarrow> player \<Rightarrow> player" where
  "catch_load e s =
     (if active (effects s ! e)
      then s\<lparr>error := Some ''Cota excedida ou erro de rede.'', isLoading := False\<rparr>
      else s)"

text \<open>\<^verbatim>\<open>loadAudio\<close> of effect \<open>e\<close>, up to \<^verbatim>\<open>await generateSpeech(...)\<close> or, on a cache hit, to its end.\<close>

definition loadAudio :: "nat \<Rightarrow> player \<Rightarrow> player" where
  "loadAudio e s =
     (if \<not> audioContextRef s then s
      else
        let s1 = (stopPlayback s)\<lparr>progress := 0, error := None, isLoading := True\<rparr>;
            chunk = eff_chunk (effects s ! e)
        in case audioCache s1 (chunk_id chunk) of
             None \<Rightarrow> s1\<lparr>fetches := fetches s1 @ [chunk], inflight := inflight s1 @ [e]\<rparr>
           | Some buffer \<Rightarrow> finish_load e buffer s1)"

text \<open>\<^verbatim>\<open>loadAudio\<close> of effect \<open>e\<close> from the point where \<^verbatim>\<open>generateSpeech\<close> has settled.\<close>

definition loadAudio_resume :: "nat \<Rightarrow> string settled \<Rightarrow> player \<Rightarrow> player" where
  "loadAudio_resume e r s =
     (case r of
        Rejected \<Rightarrow> catch_load e s
      | Fulfilled base64 \<Rightarrow>
          if \<not> active (effects s ! e) then s
          else (case decodeAudio base64 of
                  Inl err \<Rightarrow> catch_load e s
                | Inr buffer \<Rightarrow>
                    finish_load e buffer
                      (s\<lparr>audioCache :=
                           (audioCache s)(chunk_id (eff_chunk (effects s ! e)) \<mapsto> buffer)\<rparr>)))"

subsection \<open>The load effect and its cleanup\<close>

definition clearTimeout :: "nat \<Rightarrow> player \<Rightarrow> player" where
  "clearTimeout t s = s\<lparr>timers := filter (\<lambda>x. timer_id x \<noteq> t) (timers s)\<rparr>"

definition clear_loadingTimeout :: "player \<Rightarrow> player" where
  "clear_loadingTimeout s =
     (case loadingTimeoutRef s of None \<Rightarrow> s | Some t \<Rightarrow> clearTimeout t s)"

definition run_effect :: "player \<Rightarrow> player" where
  "run_effect s =
     (let e = length (effects s);
          s1 = s\<lparr>effects := effects s @
                 [\<lparr>eff_chunk = currentChunk s, eff_isPlaying = isPlaying s, active = True\<rparr>]\<rparr>
      in if audioCache s1 (chunk_id (currentChunk s1)) \<noteq> None then loadAudio e s1
         else
           let s2 = clear_loadingTimeout s1
           in s2\<lparr>timers := timers s2 @
                    [\<lparr>timer_id = nextTimerId s2, due = clock s2 + 1000, timer_eff = e\<rparr>],
                  loadingTimeoutRef := Some (nextTimerId s2),
                  nextTimerId := nextTimerId s2 + 1\<rparr>)"

text \<open>The cleanup belongs to the effect that ran last.\<close>

definition cleanup_effect :: "player \<Rightarrow> player" where
  "cleanup_effect s =
     clear_loadingTimeout
       (if effects s = [] then s
        else s\<lparr>effects := (effects s)[length (effects s) - 1 :=
                  (last (effects s))\<lparr>active := False\<rparr>]\<rparr>)"

text \<open>The play/pause effect: on \<^verbatim>\<open>isPlaying\<close>, a cached buffer is played if nothing is.\<close>

definition toggle :: "player \<Rightarrow> player" where
  "toggle s =
     (if \<not> audioContextRef s then s
      else if isPlaying s then
        (case audioCache s (chunk_id (currentChunk s)) of
           None \<Rightarrow> s
         | Some buffer \<Rightarrow>
             if sourceRef s = None \<and> \<not> isLoading s \<and> error s = None
             then playBuffer buffer s else s)
      else s)"

subsection \<open>Events of the player\<close>

datatype player_event =
    Mount text_chunk bool
  | ChunkChange text_chunk
  | Retry
  | SetPlaying bool
  | Tick nat
  | FetchSettled nat "string settled"
  | Unmount_player

text \<open>\<^verbatim>\<open>setTimeout\<close> callbacks that are due run in the order in which they were registered.\<close>

fun fire_timers :: "timer list \<Rightarrow> player \<Rightarrow> player" where
  "fire_timers [] s = s"
| "fire_timers (t # ts) s =
     fire_timers ts
       (if t \<in> set (timers s)
        then loadAudio (timer_eff t) (s\<lparr>timers := removeAll t (timers s)\<rparr>)
        else s)"

definition tick :: "nat \<Rightarrow> player \<Rightarrow> player" where
  "tick ms s =
     (let s1 = s\<lparr>clock := clock s + ms\<rparr>
      in fire_timers (filter (\<lambda>t. due t \<le> clock s1) (timers s1)) s1)"

text \<open>
  A first render creates the audio context, runs the load effect and then the play/pause
  effect. The retry button exists only while an error is shown.
\<close>

definition mount :: "text_chunk \<Rightarrow> bool \<Rightarrow> player \<Rightarrow> player" where
  "mount chunk playing s =
     toggle (run_effect
       (s\<lparr>mounted := True, currentChunk := chunk, isPlaying := playing, progress := 0,
          isLoading := False, error := None, retryTrigger := 0, audioContextRef := True,
          sourceRef := None, loadingTimeoutRef := None\<rparr>))"

fun player_step :: "player_event \<Rightarrow> player \<Rightarrow> player" where
  "player_step (Mount chunk playing) s = (if mounted s then s else mount chunk playing s)"
| "player_step (ChunkChange chunk) s =
     (if mounted s then run_effect ((cleanup_effect s)\<lparr>currentChunk := chunk\<rparr>) else s)"
| "player_step Retry s =
     (if mounted s \<and> error s \<noteq> None
      then run_effect ((cleanup_effect s)\<lparr>retryTrigger := retryTrigger s + 1\<rparr>) else s)"
| "player_step (SetPlaying b) s = (if mounted s then toggle (s\<lparr>isPlaying := b\<rparr>) else s)"
| "player_step (Tick ms) s = tick ms s"
| "player_step (FetchSettled e r) s =
     (if e \<in> set (inflight s)
      then loadAudio_resume e r (s\<lparr>inflight := removeAll e (inflight s)\<rparr>) else s)"
| "player_step Unmount_player s =
     (if mounted s then (cleanup_effect (stopPlayback s))\<lparr>mounted := False\<rparr> else s)"

fun player_run :: "player_event list \<Rightarrow> player \<Rightarrow> player" where
  "player_run [] s = s"
| "player_run (e # es) s = player_run es (player_step e s)"

text \<open>The process before any player is mounted, with an empty cache.\<close>

definition no_player :: player where
  "no_player =
     \<lparr>audioCache = Map.empty, mounted = False,
      currentChunk = \<lparr>chunk_id = 0, title = [], content = []\<rparr>, isPlaying = False,
      progress = 0, isLoading = False, error = None, retryTrigger = 0,
      audioContextRef = False, sourceRef = None, loadingTimeoutRef = None, effects = [],
      clock = 0, timers = [], nextTimerId = 1, inflight = [], fetches = []\<rparr>"

text \<open>
  A rapid sequence of chunk changes: each change is followed by the time that passes before
  the next one.
\<close>

fun rapid :: "(text_chunk \<times> nat) list \<Rightarrow> player_event list" where
  "rapid [] = []"
| "rapid ((chunk, gap) # rest) = ChunkChange chunk # Tick gap # rapid rest"

text \<open>
  The loader's bookkeeping: in-flight loads belong to distinct existing effects; only the
  effect that ran last can be active; an active in-flight load has found no cache entry for
  its chunk; a pending timer is the one \<open>loadingTimeoutRef\<close> names, set by the last effect,
  which is active and whose \<^verbatim>\<open>loadAudio\<close> has not run; and while the component is mounted the
  last effect is the one of the current chunk.
\<close>

definition timer_ok :: "player \<Rightarrow> timer \<Rightarrow> bool" where
  "timer_ok s t \<longleftrightarrow>
     loadingTimeoutRef s = Some (timer_id t) \<and> timer_id t < nextTimerId s \<and>
     Suc (timer_eff t) = length (effects s) \<and> active (effects s ! timer_eff t) \<and>
     timer_eff t \<notin> set (inflight s) \<and> clock s < due t"

definition player_inv :: "player \<Rightarrow> bool" where
  "player_inv s \<longleftrightarrow>
     distinct (inflight s) \<and> distinct (map timer_id (timers s)) \<and>
     (\<forall>e \<in> set (inflight s). e < length (effects s) \<and>
        (active (effects s ! e) \<longrightarrow> audioCache s (chunk_id (eff_chunk (effects s ! e))) = None)) \<and>
     (\<forall>e < length (effects s). active (effects s ! e) \<longrightarrow> Suc e = length (effects s)) \<and>
     (\<forall>t \<in> set (timers s). timer_ok s t) \<and>
     (mounted s \<longrightarrow>
        audioContextRef s \<and> effects s \<noteq> [] \<and> eff_chunk (last (effects s)) = currentChunk s) \<and>
     (\<not> mounted s \<longrightarrow> (\<forall>e < length (effects s). \<not> active (effects s ! e)))"

text \<open>Between the cleanup of one effect and the run of the next, nothing is active or pending.\<close>

definition quiet :: "player \<Rightarrow> bool" where
  "quiet s \<longleftrightarrow>
     distinct (inflight s) \<and> timers s = [] \<and>
     (\<forall>e \<in> set (inflight s). e < length (effects s)) \<and>
     (\<forall>e < length (effects s). \<not> active (effects s ! e))"

subsection \<open>Several players and the module-level cache\<close>








section \<open>Properties of the PCM codec\<close>

subsection \<open>Base64 decoding inverts base64 encoding\<close>

lemma length_b64_alphabet: "length b64_alphabet = 64"
  by (simp add: b64_alphabet_def)

lemma distinct_b64_alphabet: "distinct b64_alphabet"
  by (simp add: b64_alphabet_def)

lemma index_of_nth: "distinct xs \<Longrightarrow> n < length xs \<Longrightarrow> index_of (xs ! n) xs = Some n"
proof (induction xs arbitrary: n)
  case Nil
  then show ?case by simp
next
  case (Cons y ys)
  show ?case
  proof (cases n)
    case 0
    then show ?thesis by simp
  next
    case (Suc m)
    with Cons.prems have "ys ! m \<in> set ys" "y \<notin> set ys" by auto
    then have "ys ! m \<noteq> y" by auto
    with Suc Cons show ?thesis by simp
  qed
qed

lemma b64_index_char: "n < 64 \<Longrightarrow> b64_index (b64_char n) = Some n"
  unfolding b64_index_def b64_char_def
  by (rule index_of_nth) (simp_all add: distinct_b64_alphabet length_b64_alphabet)

lemma b64_char_in: "n < 64 \<Longrightarrow> b64_char n \<in> set b64_alphabet"
  by (simp add: b64_char_def length_b64_alphabet)

lemma b64_char_not_ws: "n < 64 \<Longrightarrow> \<not> ascii_whitespace (b64_char n)"
proof -
  have "\<forall>c \<in> set b64_alphabet. \<not> ascii_whitespace c"
    by (simp add: b64_alphabet_def ascii_whitespace_def)
  then show "n < 64 \<Longrightarrow> \<not> ascii_whitespace (b64_char n)"
    using b64_char_in by blast
qed

lemma b64_char_not_pad: "n < 64 \<Longrightarrow> b64_char n \<noteq> CHR ''=''"
proof -
  have "CHR ''='' \<notin> set b64_alphabet"
    by (simp add: b64_alphabet_def)
  then show "n < 64 \<Longrightarrow> b64_char n \<noteq> CHR ''=''"
    using b64_char_in by metis
qed

lemma sextet_hi: "(a::nat) < 256 \<Longrightarrow> a div 4 < 64"
  by simp

lemma sextet_mid1: "(a mod 4) * 16 + b div 16 < (64::nat)" if "b < 256"
proof -
  have "a mod 4 \<le> 3" by simp
  moreover have "b div 16 \<le> 15" using that by simp
  ultimately show ?thesis by linarith
qed

lemma sextet_mid2: "(b mod 16) * 4 + c div 64 < (64::nat)" if "c < 256"
proof -
  have "b mod 16 \<le> 15" by simp
  moreover have "c div 64 \<le> 3" using that by simp
  ultimately show ?thesis by linarith
qed

lemma sextet_pad2: "(a mod 4) * 16 < (64::nat)"
proof -
  have "a mod 4 \<le> 3" by simp
  then show ?thesis by linarith
qed

lemma sextet_pad1: "(b mod 16) * 4 < (64::nat)"
proof -
  have "b mod 16 \<le> 15" by simp
  then show ?thesis by linarith
qed

lemma join1: "(a::nat) div 4 * 4 + ((a mod 4) * 16 + b div 16) div 16 = a" if "b < 256"
proof -
  have "b div 16 < 16" using that by simp
  then have "((a mod 4) * 16 + b div 16) div 16 = a mod 4" by simp
  then show ?thesis by simp
qed

lemma join2:
  "(((a mod 4) * 16 + b div 16) mod 16) * 16 + ((b mod 16) * 4 + c div 64) div 4 = (b::nat)"
  if "b < 256" "c < 256"
proof -
  have "b div 16 < 16" using that by simp
  then have 1: "((a mod 4) * 16 + b div 16) mod 16 = b div 16" by simp
  have "c div 64 < 4" using that by simp
  then have 2: "((b mod 16) * 4 + c div 64) div 4 = b mod 16" by simp
  show ?thesis unfolding 1 2 by simp
qed

lemma join3: "(((b mod 16) * 4 + c div 64) mod 4) * 64 + c mod 64 = (c::nat)" if "c < 256"
proof -
  have "c div 64 < 4" using that by simp
  then have 2: "((b mod 16) * 4 + c div 64) mod 4 = c div 64" by simp
  show ?thesis unfolding 2 by simp
qed

lemma join2_pad:
  "(((a mod 4) * 16 + b div 16) mod 16) * 16 + ((b mod 16) * 4) div 4 = (b::nat)" if "b < 256"
proof -
  have "b div 16 < 16" using that by simp
  then have 1: "((a mod 4) * 16 + b div 16) mod 16 = b div 16" by simp
  show ?thesis unfolding 1 by simp
qed

lemma join1_pad: "(a::nat) div 4 * 4 + ((a mod 4) * 16) div 16 = a"
  by simp

lemma sextets_bound: "\<forall>b \<in> set bs. b < 256 \<Longrightarrow> \<forall>s \<in> set (b64_sextets bs). s < 64"
proof (induction bs rule: b64_sextets.induct)
  case (1 a b c rest)
  then have "a < 256" "b < 256" "c < 256" by simp_all
  with 1 show ?case by (simp add: sextet_mid1 sextet_mid2)
next
  case (2 a b)
  then have "a < 256" "b < 256" by simp_all
  then show ?case by (simp add: sextet_mid1 sextet_pad1)
next
  case (3 a)
  then have "a < 256" by simp
  then show ?case by (simp add: sextet_pad2)
next
  case 4
  then show ?case by simp
qed

lemma decode_sextets: "\<forall>b \<in> set bs. b < 256 \<Longrightarrow> b64_decode (b64_sextets bs) = bs"
proof (induction bs rule: b64_sextets.induct)
  case (1 a b c rest)
  then have "a < 256" "b < 256" "c < 256" by simp_all
  with 1 show ?case by (simp add: join1 join2 join3)
next
  case (2 a b)
  then have "a < 256" "b < 256" by simp_all
  then show ?case by (simp add: join1 join2_pad)
next
  case (3 a)
  then show ?case by (simp add: join1_pad)
next
  case 4
  then show ?case by simp
qed

lemma length_sextets: "length (b64_sextets bs) mod 4 \<noteq> 1"
  by (induction bs rule: b64_sextets.induct) simp_all

lemma length_encode: "length (b64_encode bs) mod 4 = 0"
  by (induction bs rule: b64_encode.induct) simp_all

lemma pad_not_ws: "\<not> ascii_whitespace CHR ''=''"
  by (simp add: ascii_whitespace_def)

lemma encode_no_ws:
  "\<forall>b \<in> set bs. b < 256 \<Longrightarrow> filter (\<lambda>c. \<not> ascii_whitespace c) (b64_encode bs) = b64_encode bs"
proof (induction bs rule: b64_encode.induct)
  case (1 a b c rest)
  then have "a < 256" "b < 256" "c < 256" by simp_all
  with 1 show ?case by (simp add: b64_char_not_ws sextet_mid1 sextet_mid2)
next
  case (2 a b)
  then have "a < 256" "b < 256" by simp_all
  then show ?case by (simp add: b64_char_not_ws sextet_mid1 sextet_pad1 pad_not_ws)
next
  case (3 a)
  then have "a < 256" by simp
  then show ?case by (simp add: b64_char_not_ws sextet_pad2 pad_not_ws)
next
  case 4
  then show ?case by simp
qed

lemma strip_padding_Cons4:
  assumes "length r mod 4 = 0" "r \<noteq> []"
  shows "strip_padding (w # x # y # z # r) = w # x # y # z # strip_padding r"
proof -
  from assms have "length r \<noteq> 0"
    by simp
  with assms have "4 \<le> length r"
    by presburger
  then have "length (butlast r) \<noteq> 0"
    by simp
  then have "butlast r \<noteq> []"
    by fastforce
  with assms show ?thesis
    by (simp add: strip_padding_def)
qed

lemma strip_encode:
  "\<forall>b \<in> set bs. b < 256 \<Longrightarrow> strip_padding (b64_encode bs) = map b64_char (b64_sextets bs)"
proof (induction bs rule: b64_encode.induct)
  case (1 a b c rest)
  then have *: "a < 256" "b < 256" "c < 256" by simp_all
  show ?case
  proof (cases "rest = []")
    case True
    with * show ?thesis
      by (simp add: strip_padding_def b64_char_not_pad)
  next
    case False
    then have "b64_encode rest \<noteq> []"
      by (cases rest rule: b64_encode.cases) simp_all
    with 1 show ?thesis
      by (simp add: strip_padding_Cons4 length_encode)
  qed
next
  case (2 a b)
  then have "a < 256" "b < 256" by simp_all
  then show ?case by (simp add: strip_padding_def b64_char_not_pad sextet_pad1)
next
  case (3 a)
  then show ?case by (simp add: strip_padding_def)
next
  case 4
  then show ?case by (simp add: strip_padding_def)
qed

lemma atob_btoa: "atob (btoa s) = Inr s"
proof -
  let ?bs = "map of_char s :: nat list"
  have bytes: "\<forall>b \<in> set ?bs. b < 256"
    by simp
  have six: "\<forall>n \<in> set (b64_sextets ?bs). n < 64"
    using bytes by (rule sextets_bound)
  have d: "strip_padding (filter (\<lambda>c. \<not> ascii_whitespace c) (btoa s))
           = map b64_char (b64_sextets ?bs)"
    by (simp add: btoa_def encode_no_ws [OF bytes] strip_encode [OF bytes])
  have idx: "map (\<lambda>c. the (b64_index c)) (map b64_char (b64_sextets ?bs)) = b64_sextets ?bs"
    using six by (simp add: map_idI b64_index_char)
  have ok: "\<not> (\<exists>c \<in> set (map b64_char (b64_sextets ?bs)). b64_index c = None)"
    using six by (auto simp: b64_index_char)
  have len: "length (map b64_char (b64_sextets ?bs)) mod 4 \<noteq> 1"
    using length_sextets [of ?bs] by simp
  have "map char_of (b64_decode (b64_sextets ?bs)) = s"
    by (simp add: decode_sextets [OF bytes] comp_def)
  with d idx ok len show ?thesis
    unfolding atob_def Let_def by simp
qed

subsection \<open>Bytes and 16-bit samples\<close>

lemma charCodeAt_fromCharCode: "charCodeAt (fromCharCode b) = b"
proof -
  have "unat b < 256"
    using unsigned_less [of b, where ?'a = nat] by simp
  then show ?thesis
    by (simp add: charCodeAt_def fromCharCode_def)
qed

lemma word_cat_bytes: "word_cat (ucast (drop_bit 8 w) :: 8 word) (ucast w :: 8 word) = (w :: 16 word)"
  by (rule bit_word_eqI) (auto simp: bit_simps)

lemma int16_of_bytes_bytes: "int16_of_bytes (concat (map int16_bytes ws)) = ws"
  by (induction ws) (simp_all add: int16_bytes_def word_cat_bytes)

lemma length_bytes: "length (concat (map int16_bytes ws)) = 2 * length ws"
  by (induction ws) (simp_all add: int16_bytes_def)

lemma new_Int16Array_bytes:
  "new_Int16Array (map charCodeAt (map fromCharCode (concat (map int16_bytes ws)))) = Inr ws"
proof -
  have "map charCodeAt (map fromCharCode (concat (map int16_bytes ws))) = concat (map int16_bytes ws)"
    by (simp add: comp_def charCodeAt_fromCharCode)
  then show ?thesis
    by (simp add: new_Int16Array_def length_bytes int16_of_bytes_bytes)
qed

lemma sint_word16: "- 32768 \<le> n \<Longrightarrow> n \<le> 32767 \<Longrightarrow> sint (word_of_int n :: 16 word) = n"
  by (simp add: signed_of_int signed_take_bit_int_eq_self)

lemma decode_float32ToBase64:
  "base64ToAudioBuffer (float32ToBase64 data) rate =
     (case createBuffer 1 (length data) rate of
        Inl e \<Rightarrow> Inl e
      | Inr buffer \<Rightarrow>
          Inr (buffer\<lparr>channelData := map decode_sample (map encode_sample data)\<rparr>))"
proof -
  let ?ws = "map encode_sample data"
  have enc: "float32ToBase64 data = btoa (map fromCharCode (concat (map int16_bytes ?ws)))"
    by (simp add: float32ToBase64_def)
  have "base64ToAudioBuffer (float32ToBase64 data) rate =
     (case createBuffer 1 (length ?ws) rate of
        Inl e \<Rightarrow> Inl e
      | Inr buffer \<Rightarrow> Inr (buffer\<lparr>channelData := map decode_sample ?ws\<rparr>))"
    unfolding enc base64ToAudioBuffer_def
    by (simp only: atob_btoa new_Int16Array_bytes sum.case)
  then show ?thesis
    by simp
qed

lemma truncate_nonneg: "0 \<le> r \<Longrightarrow> js_truncate r = \<lfloor>r\<rfloor>"
  by (simp add: js_truncate_def)

lemma truncate_neg: "r < 0 \<Longrightarrow> js_truncate r = \<lceil>r\<rceil>"
  by (simp add: js_truncate_def)

lemma clamp_Fin: "clamp_sample (Fin r) = Fin (max (- 1) (min 1 r))"
  by (simp add: clamp_sample_def)

lemma scale_Fin:
  "scale_sample (Fin r) =
     (let s = max (- 1) (min 1 r) in if s < 0 then Fin (s * 32768) else Fin (s * 32767))"
  by (auto simp: scale_sample_def clamp_Fin Let_def)

lemma scale_PosInf: "scale_sample PosInf = Fin 32767"
  by (simp add: scale_sample_def clamp_sample_def)

lemma scale_NegInf: "scale_sample NegInf = Fin (- 32768)"
  by (simp add: scale_sample_def clamp_sample_def)

lemma scale_NaN: "scale_sample NaN = NaN"
  by (simp add: scale_sample_def clamp_sample_def)

lemma truncate_range:
  assumes "- 32768 \<le> v" "v \<le> 32767"
  shows "- 32768 \<le> js_truncate v \<and> js_truncate v \<le> 32767"
proof (cases "v < 0")
  case True
  then have "js_truncate v = \<lceil>v\<rceil>" by (rule truncate_neg)
  moreover have "- 32768 \<le> \<lceil>v\<rceil>" using assms(1) by (simp add: le_ceiling_iff)
  moreover have "\<lceil>v\<rceil> \<le> 0" using True by (simp add: ceiling_le_iff)
  ultimately show ?thesis by simp
next
  case False
  then have "js_truncate v = \<lfloor>v\<rfloor>" by (simp add: js_truncate_def)
  moreover have "\<lfloor>v\<rfloor> \<le> 32767" using assms(2) by (simp add: floor_le_iff)
  moreover have "0 \<le> \<lfloor>v\<rfloor>" using False by simp
  ultimately show ?thesis by simp
qed

lemma scale_range:
  "scale_sample x = NaN \<and> x = NaN \<or> (\<exists>v. scale_sample x = Fin v \<and> - 32768 \<le> v \<and> v \<le> 32767)"
proof (cases x)
  case (Fin r)
  let ?s = "max (- 1) (min 1 r)"
  have s: "- 1 \<le> ?s" "?s \<le> 1" by simp_all
  show ?thesis
  proof (cases "?s < 0")
    case True
    with s Fin show ?thesis by (simp add: scale_Fin Let_def)
  next
    case False
    then have "0 \<le> ?s" by simp
    then have "- 32768 \<le> ?s * 32767" by simp
    moreover have "?s * 32767 \<le> 32767" using s by simp
    ultimately show ?thesis using False Fin by (simp add: scale_Fin Let_def)
  qed
qed (simp_all add: scale_PosInf scale_NegInf scale_NaN)

lemma encode_sample_exact:
  "scale_sample x = Fin v \<Longrightarrow> sint (encode_sample x) = js_truncate v"
  using scale_range [of x] truncate_range [of v]
  by (auto simp: encode_sample_def sint_word16)

lemma encode_sample_NaN: "encode_sample NaN = 0"
  by (simp add: encode_sample_def scale_NaN)

lemma clamp_range: "x \<noteq> NaN \<Longrightarrow> \<exists>s. clamp_sample x = Fin s \<and> - 1 \<le> s \<and> s \<le> 1"
  by (cases x) (simp_all add: clamp_sample_def)

subsection \<open>Clamping before scaling\<close>

lemma encode_Fin:
  "clamp_sample (Fin r) = Fin (max (- 1) (min 1 r)) \<and>
   scale_sample (Fin r) =
     Fin (if max (- 1) (min 1 r) < 0 then max (- 1) (min 1 r) * 32768
          else max (- 1) (min 1 r) * 32767) \<and>
   - 32768 \<le> (if max (- 1) (min 1 r) < 0 then max (- 1) (min 1 r) * 32768
               else max (- 1) (min 1 r) * 32767) \<and>
   (if max (- 1) (min 1 r) < 0 then max (- 1) (min 1 r) * 32768
    else max (- 1) (min 1 r) * 32767) \<le> 32767 \<and>
   sint (encode_sample (Fin r)) =
     js_truncate (if max (- 1) (min 1 r) < 0 then max (- 1) (min 1 r) * 32768
                  else max (- 1) (min 1 r) * 32767)"
proof -
  let ?v = "if max (- 1) (min 1 r) < 0 then max (- 1) (min 1 r) * 32768
            else max (- 1) (min 1 r) * 32767"
  have s: "scale_sample (Fin r) = Fin ?v"
    by (auto simp: scale_Fin Let_def)
  with scale_range [of "Fin r"] have "- 32768 \<le> ?v" "?v \<le> 32767"
    by auto
  moreover from s have "sint (encode_sample (Fin r)) = js_truncate ?v"
    by (rule encode_sample_exact)
  ultimately show ?thesis
    using s clamp_Fin by blast
qed

lemma encode_PosInf: "clamp_sample PosInf = Fin 1 \<and> sint (encode_sample PosInf) = (32767::int)"
  using encode_sample_exact [OF scale_PosInf]
  by (simp add: clamp_sample_def js_truncate_def)

lemma encode_NegInf: "clamp_sample NegInf = Fin (- 1) \<and> sint (encode_sample NegInf) = (- 32768::int)"
  using encode_sample_exact [OF scale_NegInf]
  by (simp add: clamp_sample_def js_truncate_def)

lemma encode_NaN: "clamp_sample NaN = NaN \<and> sint (encode_sample NaN) = (0::int)"
  by (simp add: clamp_sample_def encode_sample_NaN)

lemma atob_float32ToBase64:
  "atob (float32ToBase64 data) =
     Inr (map fromCharCode (concat (map int16_bytes (map encode_sample data))))"
  unfolding float32ToBase64_def Let_def by (rule atob_btoa)

text \<open>
  Claim C9. Take any input of \<^verbatim>\<open>float32ToBase64\<close> and read the 16-bit integers back out of the
  string it returns. There is one per sample. For a finite sample \<open>r\<close>, also outside
  \<open>[-1, 1]\<close>, the value scaled is \<open>max (-1) (min 1 r)\<close>; it is multiplied by 32768 when negative
  and by 32767 otherwise; the product lies between \<open>-32768\<close> and \<open>32767\<close>; and the integer
  written is exactly the truncation of that product, so the conversion to 16 bits never
  wraps. An infinite sample is clamped to \<open>1\<close> or \<open>-1\<close> and written as \<open>32767\<close> or \<open>-32768\<close>. A
  NaN sample passes through \<^verbatim>\<open>Math.min\<close> and \<^verbatim>\<open>Math.max\<close> unchanged and is written as 0.
\<close>

theorem float32ToBase64_clamps:
  "\<exists>binary int16.
     atob (float32ToBase64 data) = Inr binary \<and>
     new_Int16Array (map charCodeAt binary) = Inr int16 \<and>
     length int16 = length data \<and>
     (\<forall>i < length data.
        (\<forall>r. data ! i = Fin r \<longrightarrow>
           clamp_sample (data ! i) = Fin (max (- 1) (min 1 r)) \<and>
           scale_sample (data ! i) =
             Fin (if max (- 1) (min 1 r) < 0 then max (- 1) (min 1 r) * 32768
                  else max (- 1) (min 1 r) * 32767) \<and>
           - 32768 \<le> (if max (- 1) (min 1 r) < 0 then max (- 1) (min 1 r) * 32768
                       else max (- 1) (min 1 r) * 32767) \<and>
           (if max (- 1) (min 1 r) < 0 then max (- 1) (min 1 r) * 32768
            else max (- 1) (min 1 r) * 32767) \<le> 32767 \<and>
           sint (int16 ! i) =
             js_truncate (if max (- 1) (min 1 r) < 0 then max (- 1) (min 1 r) * 32768
                          else max (- 1) (min 1 r) * 32767)) \<and>
        (data ! i = PosInf \<longrightarrow> clamp_sample (data ! i) = Fin 1 \<and> sint (int16 ! i) = (32767::int)) \<and>
        (data ! i = NegInf \<longrightarrow>
           clamp_sample (data ! i) = Fin (- 1) \<and> sint (int16 ! i) = (- 32768::int)) \<and>
        (data ! i = NaN \<longrightarrow> clamp_sample (data ! i) = NaN \<and> sint (int16 ! i) = (0::int)))"
proof (intro exI conjI allI impI)
  show "atob (float32ToBase64 data) =
      Inr (map fromCharCode (concat (map int16_bytes (map encode_sample data))))"
    by (rule atob_float32ToBase64)
  show "new_Int16Array (map charCodeAt
          (map fromCharCode (concat (map int16_bytes (map encode_sample data))))) =
        Inr (map encode_sample data)"
    by (rule new_Int16Array_bytes)
  show "length (map encode_sample data) = length data"
    by simp
next
  fix i r assume "i < length data" "data ! i = Fin r"
  then have e: "map encode_sample data ! i = encode_sample (Fin r)"
    by simp
  note f = encode_Fin [of r]
  show "clamp_sample (data ! i) = Fin (max (- 1) (min 1 r))"
    using f \<open>data ! i = Fin r\<close> by simp
  show "scale_sample (data ! i) =
             Fin (if max (- 1) (min 1 r) < 0 then max (- 1) (min 1 r) * 32768
                  else max (- 1) (min 1 r) * 32767)"
    using f \<open>data ! i = Fin r\<close> by simp
  show "- 32768 \<le> (if max (- 1) (min 1 r) < 0 then max (- 1) (min 1 r) * 32768
                       else max (- 1) (min 1 r) * 32767)"
    using f by blast
  show "(if max (- 1) (min 1 r) < 0 then max (- 1) (min 1 r) * 32768
            else max (- 1) (min 1 r) * 32767) \<le> 32767"
    using f by blast
  show "sint (map encode_sample data ! i) =
             js_truncate (if max (- 1) (min 1 r) < 0 then max (- 1) (min 1 r) * 32768
                          else max (- 1) (min 1 r) * 32767)"
    unfolding e using f by blast
next
  fix i assume i: "i < length data" and d: "data ! i = PosInf"
  show "clamp_sample (data ! i) = Fin 1" "sint (map encode_sample data ! i) = (32767::int)"
    using i d encode_PosInf by simp_all
next
  fix i assume i: "i < length data" and d: "data ! i = NegInf"
  show "clamp_sample (data ! i) = Fin (- 1)" "sint (map encode_sample data ! i) = (- 32768::int)"
    using i d encode_NegInf by simp_all
next
  fix i assume i: "i < length data" and d: "data ! i = NaN"
  show "clamp_sample (data ! i) = NaN" "sint (map encode_sample data ! i) = (0::int)"
    using i d encode_NaN by simp_all
qed

theorem float32ToBase64_clamps_witness:
  "\<exists>binary int16.
     atob (float32ToBase64 [Fin (5 / 2), Fin (- 3), Fin (1 / 2), PosInf, NaN]) = Inr binary \<and>
     new_Int16Array (map charCodeAt binary) = Inr int16 \<and>
     map sint int16 = [32767, - 32768, 16383, 32767, 0::int]"
proof -
  let ?data = "[Fin (5 / 2), Fin (- 3), Fin (1 / 2), PosInf, NaN]"
  from float32ToBase64_clamps [of ?data] obtain binary int16
    where b: "atob (float32ToBase64 ?data) = Inr binary"
      "new_Int16Array (map charCodeAt binary) = Inr int16"
      and len: "length int16 = length ?data"
      and el: "\<forall>i < length ?data.
        (\<forall>r. ?data ! i = Fin r \<longrightarrow>
           sint (int16 ! i) =
             js_truncate (if max (- 1) (min 1 r) < 0 then max (- 1) (min 1 r) * 32768
                          else max (- 1) (min 1 r) * 32767)) \<and>
        (?data ! i = PosInf \<longrightarrow> sint (int16 ! i) = (32767::int)) \<and>
        (?data ! i = NaN \<longrightarrow> sint (int16 ! i) = (0::int))"
    by blast
  have fin: "sint (int16 ! i) =
      js_truncate (if max (- 1) (min 1 r) < 0 then max (- 1) (min 1 r) * 32768
                   else max (- 1) (min 1 r) * 32767)"
    if "i < length ?data" "?data ! i = Fin r" for i r
    using el that by blast
  have inf: "sint (int16 ! i) = (32767::int)" if "i < length ?data" "?data ! i = PosInf" for i
    using el that by blast
  have nan: "sint (int16 ! i) = (0::int)" if "i < length ?data" "?data ! i = NaN" for i
    using el that by blast
  from fin [of 0 "5 / 2"] have 0: "sint (int16 ! 0) = (32767::int)"
    by (simp add: js_truncate_def)
  from fin [of 1 "- 3"] have 1: "sint (int16 ! 1) = (- 32768::int)"
    by (simp add: js_truncate_def)
  from fin [of 2 "1 / 2"] have 2: "sint (int16 ! 2) = (16383::int)"
    by (simp add: js_truncate_def)
  from inf [of 3] have 3: "sint (int16 ! 3) = (32767::int)"
    by simp
  from nan [of 4] have 4: "sint (int16 ! 4) = (0::int)"
    by simp
  from len obtain a b c d e where "int16 = [a, b, c, d, e]"
    by (auto simp: length_Suc_conv eval_nat_numeral)
  with 0 1 2 3 4 have m: "map sint int16 = [32767, - 32768, 16383, 32767, 0::int]"
    by simp
  show ?thesis
    by (rule exI [of _ binary], rule exI [of _ int16]) (simp add: b m)
qed

subsection \<open>Decoding an encoded signal\<close>

lemma roundtrip_neg:
  assumes "- 1 \<le> r" "r < 0"
  shows "\<bar>decode_sample (encode_sample (Fin r)) - r\<bar> < 1 / 32768"
proof -
  let ?y = "r * 32768"
  from assms have "scale_sample (Fin r) = Fin ?y"
    by (simp add: scale_Fin)
  then have "sint (encode_sample (Fin r)) = js_truncate ?y"
    by (rule encode_sample_exact)
  also have "\<dots> = \<lceil>?y\<rceil>"
    using assms by (simp add: js_truncate_def)
  finally have d: "decode_sample (encode_sample (Fin r)) = real_of_int \<lceil>?y\<rceil> / 32768"
    by (simp add: decode_sample_def)
  have "?y \<le> real_of_int \<lceil>?y\<rceil>" "real_of_int \<lceil>?y\<rceil> < ?y + 1"
    by linarith+
  then show ?thesis
    unfolding d by linarith
qed

lemma roundtrip_nonneg:
  assumes "0 \<le> r" "r \<le> 1"
  shows "\<bar>decode_sample (encode_sample (Fin r)) - r\<bar> < 2 / 32768"
proof -
  let ?y = "r * 32767"
  from assms have "scale_sample (Fin r) = Fin ?y"
    by (simp add: scale_Fin)
  then have "sint (encode_sample (Fin r)) = js_truncate ?y"
    by (rule encode_sample_exact)
  also have "\<dots> = \<lfloor>?y\<rfloor>"
    using assms by (simp add: js_truncate_def)
  finally have d: "decode_sample (encode_sample (Fin r)) = real_of_int \<lfloor>?y\<rfloor> / 32768"
    by (simp add: decode_sample_def)
  have fl: "real_of_int \<lfloor>?y\<rfloor> \<le> ?y" "?y < real_of_int \<lfloor>?y\<rfloor> + 1"
    by linarith+
  show ?thesis
  proof (cases "r = 1")
    case True
    then show ?thesis
      unfolding d by simp
  next
    case False
    with assms have "r < 1" by simp
    with fl assms show ?thesis
      unfolding d by linarith
  qed
qed

lemma roundtrip_sample:
  assumes "- 1 \<le> r" "r \<le> 1"
  shows "\<bar>decode_sample (encode_sample (Fin r)) - r\<bar> < 2 / 32768 \<and>
         (r < 0 \<longrightarrow> \<bar>decode_sample (encode_sample (Fin r)) - r\<bar> < 1 / 32768)"
proof (cases "r < 0")
  case True
  with assms have "\<bar>decode_sample (encode_sample (Fin r)) - r\<bar> < 1 / 32768"
    by (intro roundtrip_neg)
  then show ?thesis by linarith
next
  case False
  with assms have "\<bar>decode_sample (encode_sample (Fin r)) - r\<bar> < 2 / 32768"
    by (intro roundtrip_nonneg) simp_all
  with False show ?thesis by blast
qed

text \<open>
  Claim C1 as stated (error at most \<open>1 / 32768\<close>) fails: the sample \<open>1 - 2\<^sup>-\<^sup>1\<^sup>6\<close>, which a 32-bit
  float holds exactly, is scaled by 32767 to \<open>32766.50001...\<close>, stored as 32766 and decoded
  with the divisor 32768 to \<open>16383 / 16384\<close>, which is \<open>1.5 / 32768\<close> below the sample.
\<close>

theorem codec_roundtrip_counterexample:
  "base64ToAudioBuffer (float32ToBase64 [Fin (65535 / 65536)]) 24000 =
     Inr \<lparr>numberOfChannels = 1, sampleRate = 24000, channelData = [16383 / 16384]\<rparr> \<and>
   - 1 \<le> (65535 / 65536 :: real) \<and> (65535 / 65536 :: real) \<le> 1 \<and>
   \<not> \<bar>16383 / 16384 - 65535 / 65536\<bar> \<le> (1 / 32768 :: real)"
proof -
  have "scale_sample (Fin (65535 / 65536)) = Fin (65535 / 65536 * 32767)"
    by (simp add: scale_Fin)
  then have "encode_sample (Fin (65535 / 65536)) = 32766"
    by (simp add: encode_sample_def js_truncate_def)
  then have "decode_sample (encode_sample (Fin (65535 / 65536))) = 16383 / 16384"
    by (simp add: decode_sample_def)
  then show ?thesis
    by (simp add: decode_float32ToBase64 createBuffer_def)
qed

text \<open>
  Claim C1, amended. For every non-empty sequence of samples in \<open>[-1, 1]\<close> and every sample rate
  that \<^verbatim>\<open>createBuffer\<close> accepts, decoding the encoded sequence returns a buffer with as many
  frames as there were samples, and each frame differs from its sample by less than
  \<open>2 / 32768\<close>, and by less than \<open>1 / 32768\<close> when the sample is negative. (Non-negative samples
  are scaled by 32767 but decoded with the divisor 32768; the empty sequence encodes to the
  empty string, for which \<^verbatim>\<open>createBuffer\<close> throws.)
\<close>

theorem codec_roundtrip:
  assumes "data \<noteq> []" and "8000 \<le> rate" and "rate \<le> 96000"
    and "\<forall>x \<in> set data. \<exists>r. x = Fin r \<and> - 1 \<le> r \<and> r \<le> 1"
  shows "\<exists>buffer. base64ToAudioBuffer (float32ToBase64 data) rate = Inr buffer \<and>
           length (channelData buffer) = length data \<and>
           (\<forall>i < length data. \<forall>r. data ! i = Fin r \<longrightarrow>
              \<bar>channelData buffer ! i - r\<bar> < 2 / 32768 \<and>
              (r < 0 \<longrightarrow> \<bar>channelData buffer ! i - r\<bar> < 1 / 32768))"
proof -
  let ?out = "map decode_sample (map encode_sample data)"
  let ?buffer = "\<lparr>numberOfChannels = 1, sampleRate = rate, channelData = ?out\<rparr>"
  from assms(1-3) have "base64ToAudioBuffer (float32ToBase64 data) rate = Inr ?buffer"
    by (simp add: decode_float32ToBase64 createBuffer_def)
  moreover have "length (channelData ?buffer) = length data"
    by simp
  moreover have "\<bar>channelData ?buffer ! i - r\<bar> < 2 / 32768 \<and>
              (r < 0 \<longrightarrow> \<bar>channelData ?buffer ! i - r\<bar> < 1 / 32768)"
    if "i < length data" "data ! i = Fin r" for i r
  proof -
    from that assms(4) have "- 1 \<le> r" "r \<le> 1"
      by (metis nth_mem number.inject)+
    then show ?thesis
      using that roundtrip_sample [of r] by simp
  qed
  ultimately show ?thesis
    by blast
qed

theorem codec_roundtrip_witness:
  "[Fin (1 / 2), Fin (- 1)] \<noteq> [] \<and> (8000::nat) \<le> 24000 \<and> (24000::nat) \<le> 96000 \<and>
   (- 1::real) \<le> 1 / 2 \<and> (1 / 2::real) \<le> 1 \<and>
   (\<exists>buffer. base64ToAudioBuffer (float32ToBase64 [Fin (1 / 2), Fin (- 1)]) 24000 = Inr buffer \<and>
           length (channelData buffer) = 2 \<and>
           \<bar>channelData buffer ! 0 - 1 / 2\<bar> < 2 / 32768 \<and>
           \<bar>channelData buffer ! 1 - (- 1)\<bar> < 1 / 32768)"
proof -
  have "\<exists>r. Fin (1 / 2) = Fin r \<and> - 1 \<le> r \<and> r \<le> 1"
    by (rule exI [of _ "1 / 2"]) simp
  moreover have "\<exists>r. Fin (- 1) = Fin r \<and> - 1 \<le> r \<and> r \<le> 1"
    by (rule exI [of _ "- 1"]) simp
  ultimately have h: "\<forall>x \<in> set [Fin (1 / 2), Fin (- 1)]. \<exists>r. x = Fin r \<and> - 1 \<le> r \<and> r \<le> 1"
    by simp
  from codec_roundtrip [of "[Fin (1 / 2), Fin (- 1)]" 24000, OF _ _ _ h]
  obtain buffer where b: "base64ToAudioBuffer (float32ToBase64 [Fin (1 / 2), Fin (- 1)]) 24000 = Inr buffer"
      "length (channelData buffer) = 2"
      "\<forall>i < 2. \<forall>r. [Fin (1 / 2), Fin (- 1)] ! i = Fin r \<longrightarrow>
              \<bar>channelData buffer ! i - r\<bar> < 2 / 32768 \<and>
              (r < 0 \<longrightarrow> \<bar>channelData buffer ! i - r\<bar> < 1 / 32768)"
    by auto
  from b(3) have "\<bar>channelData buffer ! 0 - 1 / 2\<bar> < 2 / 32768"
    by (metis nth_Cons_0 pos2)
  moreover from b(3) have "\<bar>channelData buffer ! 1 - (- 1)\<bar> < 1 / 32768"
    by (metis One_nat_def nth_Cons_0 nth_Cons_Suc one_less_numeral_iff semiring_norm(76) neg_less_0_iff_less zero_less_one)
  ultimately show ?thesis
    using b(1,2) by auto
qed

subsection \<open>Decoding a payload of any length\<close>

text \<open>
  Claim C4 as stated fails: \<^verbatim>\<open>AAAA\<close> is well-formed base64 for three zero bytes, and an
  \<^verbatim>\<open>Int16Array\<close> cannot be laid over a buffer of three bytes.
\<close>

theorem base64ToAudioBuffer_odd_counterexample:
  "base64ToAudioBuffer ''AAAA'' 24000 = Inl RangeError"
  by (simp add: base64ToAudioBuffer_def atob_def strip_padding_def ascii_whitespace_def
      b64_index_def b64_alphabet_def new_Int16Array_def)

text \<open>
  Claim C4, amended. \<^verbatim>\<open>base64ToAudioBuffer\<close> checks nothing itself and raises whenever one of the
  platform calls it makes does. At a sample rate that \<^verbatim>\<open>createBuffer\<close> accepts it returns a buffer
  exactly when the input is base64 that decodes to an even, non-zero number of bytes; when the
  decoded byte count is odd it raises a RangeError.
\<close>

theorem base64ToAudioBuffer_returns:
  assumes "8000 \<le> rate" and "rate \<le> 96000"
  shows "((\<exists>buffer. base64ToAudioBuffer base64 rate = Inr buffer) \<longleftrightarrow>
            (\<exists>binaryString. atob base64 = Inr binaryString \<and> even (length binaryString) \<and>
               binaryString \<noteq> [])) \<and>
         (\<forall>binaryString. atob base64 = Inr binaryString \<and> odd (length binaryString) \<longrightarrow>
            base64ToAudioBuffer base64 rate = Inl RangeError)"
proof (cases "atob base64")
  case (Inl e)
  then show ?thesis
    by (simp add: base64ToAudioBuffer_def)
next
  case (Inr binaryString)
  show ?thesis
  proof (cases "odd (length binaryString)")
    case True
    with Inr show ?thesis
      by (simp add: base64ToAudioBuffer_def new_Int16Array_def)
  next
    case False
    have len: "length (int16_of_bytes bs) = length bs div 2" for bs
      by (induction bs rule: int16_of_bytes.induct) simp_all
    from False have "binaryString = [] \<longleftrightarrow> length binaryString div 2 = 0"
      by (cases binaryString) auto
    with Inr False assms show ?thesis
      by (auto simp: base64ToAudioBuffer_def new_Int16Array_def createBuffer_def len)
  qed
qed

theorem base64ToAudioBuffer_returns_witness:
  "(8000::nat) \<le> 24000 \<and> (24000::nat) \<le> 96000 \<and>
   atob ''AAA='' = Inr [CHR 0x00, CHR 0x00] \<and>
   base64ToAudioBuffer ''AAA='' 24000 =
     Inr \<lparr>numberOfChannels = 1, sampleRate = 24000, channelData = [0]\<rparr> \<and>
   atob ''AA=='' = Inr [CHR 0x00] \<and> base64ToAudioBuffer ''AA=='' 24000 = Inl RangeError"
proof -
  have a: "atob ''AAA='' = Inr [CHR 0x00, CHR 0x00]"
    by (simp add: atob_def strip_padding_def ascii_whitespace_def b64_index_def b64_alphabet_def
        char_of_def)
  have b: "atob ''AA=='' = Inr [CHR 0x00]"
    by (simp add: atob_def strip_padding_def ascii_whitespace_def b64_index_def b64_alphabet_def
        char_of_def)
  from b base64ToAudioBuffer_returns [of 24000 "''AA==''"]
  have "base64ToAudioBuffer ''AA=='' 24000 = Inl RangeError"
    by simp
  moreover have "base64ToAudioBuffer ''AAA='' 24000 =
     Inr \<lparr>numberOfChannels = 1, sampleRate = 24000, channelData = [0]\<rparr>"
    by (simp add: base64ToAudioBuffer_def a new_Int16Array_def createBuffer_def charCodeAt_def
        decode_sample_def)
  ultimately show ?thesis
    using a b by simp
qed

section \<open>Properties of the live voice session\<close>

subsection \<open>Scheduling a buffer\<close>

lemma playAudioResponse_Some:
  assumes "outputAudioContextRef s = Some ctx"
  shows "playAudioResponse buffer s =
     (let start = (if activeSourcesRef s = [] \<and> currentTime ctx + 0.5 < nextStartTimeRef s
                   then currentTime ctx else max (nextStartTimeRef s) (currentTime ctx))
      in s\<lparr>outputAudioContextRef :=
              Some (ctx\<lparr>nodes := nodes ctx @
                      [\<lparr>node_buffer = buffer, startTime = start, stopTime = None\<rparr>]\<rparr>),
            nextStartTimeRef := start + duration buffer,
            activeSourcesRef := activeSourcesRef s @ [length (nodes ctx)]\<rparr>)"
  using assms by (auto simp: playAudioResponse_def Let_def max_def)

text \<open>
  Claim C2. When an output context exists, \<^verbatim>\<open>playAudioResponse\<close> starts the buffer at
  \<open>max nextStartTime now\<close>, except that it starts it at \<open>now\<close> when no source is active and
  \<open>nextStartTime\<close> is more than 0.5 s ahead of \<open>now\<close>; afterwards \<open>nextStartTime\<close> is the chosen
  start plus the buffer's duration, and the new node is in the active set. In particular,
  when a buffer of 1 s is started at the current time \<open>t0\<close> and a buffer of 0.5 s is enqueued
  after the audio clock has advanced by at most 1 s (the first node is still in the active
  set), the second node starts at exactly \<open>t0 + 1\<close>.
\<close>

theorem playAudioResponse_schedule:
  assumes "outputAudioContextRef s = Some ctx"
  defines "start \<equiv> (if activeSourcesRef s = [] \<and> currentTime ctx + 0.5 < nextStartTimeRef s
                     then currentTime ctx else max (nextStartTimeRef s) (currentTime ctx))"
  shows "outputAudioContextRef (playAudioResponse buffer s) =
           Some (ctx\<lparr>nodes := nodes ctx @
                   [\<lparr>node_buffer = buffer, startTime = start, stopTime = None\<rparr>]\<rparr>) \<and>
         nextStartTimeRef (playAudioResponse buffer s) = start + duration buffer \<and>
         activeSourcesRef (playAudioResponse buffer s) = activeSourcesRef s @ [length (nodes ctx)] \<and>
         (\<forall>B2 dt. duration buffer = 1 \<and> duration B2 = 1 / 2 \<and> start = currentTime ctx \<and>
             0 \<le> dt \<and> dt \<le> 1 \<longrightarrow>
             (\<exists>ctx2. outputAudioContextRef
                        (playAudioResponse B2 (advance_audio dt (playAudioResponse buffer s))) =
                      Some ctx2 \<and>
                    nodes ctx2 = nodes ctx @
                      [\<lparr>node_buffer = buffer, startTime = currentTime ctx, stopTime = None\<rparr>,
                       \<lparr>node_buffer = B2, startTime = currentTime ctx + 1, stopTime = None\<rparr>]))"
proof -
  have p: "playAudioResponse buffer s =
      s\<lparr>outputAudioContextRef :=
              Some (ctx\<lparr>nodes := nodes ctx @
                      [\<lparr>node_buffer = buffer, startTime = start, stopTime = None\<rparr>]\<rparr>),
            nextStartTimeRef := start + duration buffer,
            activeSourcesRef := activeSourcesRef s @ [length (nodes ctx)]\<rparr>"
    using playAudioResponse_Some [OF assms(1)] by (simp add: start_def Let_def)
  have "\<exists>ctx2. outputAudioContextRef
                        (playAudioResponse B2 (advance_audio dt (playAudioResponse buffer s))) =
                      Some ctx2 \<and>
                    nodes ctx2 = nodes ctx @
                      [\<lparr>node_buffer = buffer, startTime = currentTime ctx, stopTime = None\<rparr>,
                       \<lparr>node_buffer = B2, startTime = currentTime ctx + 1, stopTime = None\<rparr>]"
    if "duration buffer = 1" "duration B2 = 1 / 2" "start = currentTime ctx" "0 \<le> dt" "dt \<le> 1"
    for B2 dt
  proof -
    let ?s1 = "advance_audio dt (playAudioResponse buffer s)"
    let ?c1 = "ctx\<lparr>currentTime := currentTime ctx + dt, nodes := nodes ctx @
                      [\<lparr>node_buffer = buffer, startTime = currentTime ctx, stopTime = None\<rparr>]\<rparr>"
    have c1: "outputAudioContextRef ?s1 = Some ?c1"
      using that by (simp add: p advance_audio_def)
    have n1: "nextStartTimeRef ?s1 = currentTime ctx + 1"
      using that by (simp add: p advance_audio_def)
    have a1: "activeSourcesRef ?s1 \<noteq> []"
      using that by (simp add: p advance_audio_def)
    show ?thesis
      using that a1 n1 by (simp add: playAudioResponse_Some [OF c1] Let_def)
  qed
  then show ?thesis
    unfolding p by simp
qed

theorem playAudioResponse_schedule_witness:
  "outputAudioContextRef (voice_session initial_chat) = Some \<lparr>currentTime = 0, nodes = []\<rparr> \<and>
   duration \<lparr>numberOfChannels = 1, sampleRate = 24000, channelData = replicate 24000 0\<rparr> = 1 \<and>
   duration \<lparr>numberOfChannels = 1, sampleRate = 24000, channelData = replicate 12000 0\<rparr> = 1 / 2 \<and>
   (\<exists>ctx2. outputAudioContextRef
      (playAudioResponse \<lparr>numberOfChannels = 1, sampleRate = 24000, channelData = replicate 12000 0\<rparr>
        (advance_audio (3 / 4)
          (playAudioResponse \<lparr>numberOfChannels = 1, sampleRate = 24000, channelData = replicate 24000 0\<rparr>
            (voice_session initial_chat)))) = Some ctx2 \<and>
      map startTime (nodes ctx2) = [0, 1])"
proof -
  let ?B1 = "\<lparr>numberOfChannels = 1, sampleRate = 24000, channelData = replicate 24000 0\<rparr>"
  let ?B2 = "\<lparr>numberOfChannels = 1, sampleRate = 24000, channelData = replicate 12000 0\<rparr>"
  have c: "outputAudioContextRef (voice_session initial_chat) = Some \<lparr>currentTime = 0, nodes = []\<rparr>"
    by (simp add: voice_session_def)
  have d1: "duration ?B1 = 1" and d2: "duration ?B2 = 1 / 2"
    by (simp_all add: duration_def)
  have st: "(if activeSourcesRef (voice_session initial_chat) = [] \<and>
               currentTime \<lparr>currentTime = 0, nodes = []\<rparr> + 0.5
                 < nextStartTimeRef (voice_session initial_chat)
            then currentTime \<lparr>currentTime = 0, nodes = []\<rparr>
            else max (nextStartTimeRef (voice_session initial_chat))
                   (currentTime \<lparr>currentTime = 0, nodes = []\<rparr>))
            = currentTime \<lparr>currentTime = 0, nodes = []\<rparr>"
    by (simp add: voice_session_def initial_chat_def)
  from playAudioResponse_schedule [OF c, of ?B1]
  have "\<forall>B2 dt. duration ?B1 = 1 \<and> duration B2 = 1 / 2 \<and>
          (if activeSourcesRef (voice_session initial_chat) = [] \<and>
               currentTime \<lparr>currentTime = 0, nodes = []\<rparr> + 0.5
                 < nextStartTimeRef (voice_session initial_chat)
            then currentTime \<lparr>currentTime = 0, nodes = []\<rparr>
            else max (nextStartTimeRef (voice_session initial_chat))
                   (currentTime \<lparr>currentTime = 0, nodes = []\<rparr>))
            = currentTime \<lparr>currentTime = 0, nodes = []\<rparr> \<and>
             0 \<le> dt \<and> dt \<le> 1 \<longrightarrow>
             (\<exists>ctx2. outputAudioContextRef
                        (playAudioResponse B2 (advance_audio dt (playAudioResponse ?B1 (voice_session initial_chat)))) =
                      Some ctx2 \<and>
                    nodes ctx2 = nodes \<lparr>currentTime = 0, nodes = []\<rparr> @
                      [\<lparr>node_buffer = ?B1, startTime = currentTime \<lparr>currentTime = 0, nodes = []\<rparr>, stopTime = None\<rparr>,
                       \<lparr>node_buffer = B2, startTime = currentTime \<lparr>currentTime = 0, nodes = []\<rparr> + 1, stopTime = None\<rparr>])"
    by blast
  from this [rule_format, of ?B2 "3 / 4"] d1 d2 st
  obtain ctx2 where "outputAudioContextRef
      (playAudioResponse ?B2 (advance_audio (3 / 4) (playAudioResponse ?B1 (voice_session initial_chat))))
      = Some ctx2" "nodes ctx2 = [\<lparr>node_buffer = ?B1, startTime = 0, stopTime = None\<rparr>,
                       \<lparr>node_buffer = ?B2, startTime = 1, stopTime = None\<rparr>]"
    by auto
  then show ?thesis
    using c d1 d2 by simp
qed

subsection \<open>The turn-complete signal\<close>

text \<open>
  Claim C5 as stated fails: the flag is cleared by the handler itself, at the time the message
  is handled, while the timeout it registers is still 500 ms away.
\<close>

theorem turnComplete_counterexample:
  "isInterruptedRef (initial_chat\<lparr>isInterruptedRef := True\<rparr>) = True \<and>
   isInterruptedRef
     (handleLiveMessage \<lparr>interrupted = False, turnComplete = True, audioData = None\<rparr>
        (initial_chat\<lparr>isInterruptedRef := True\<rparr>)) = False \<and>
   wallClock
     (handleLiveMessage \<lparr>interrupted = False, turnComplete = True, audioData = None\<rparr>
        (initial_chat\<lparr>isInterruptedRef := True\<rparr>)) = 0 \<and>
   timeouts
     (handleLiveMessage \<lparr>interrupted = False, turnComplete = True, audioData = None\<rparr>
        (initial_chat\<lparr>isInterruptedRef := True\<rparr>)) = [500]"
  by (simp add: handleLiveMessage_def initial_chat_def truthy_def)

lemma playAudioResponse_fields:
  "isInterruptedRef (playAudioResponse b s) = isInterruptedRef s"
  "timeouts (playAudioResponse b s) = timeouts s"
  "wallClock (playAudioResponse b s) = wallClock s"
  "aiSpeaking (playAudioResponse b s) = aiSpeaking s"
  "mountedRef (playAudioResponse b s) = mountedRef s"
  "isTextLoading (playAudioResponse b s) = isTextLoading s"
  "textRequest (playAudioResponse b s) = textRequest s"
  by (simp_all add: playAudioResponse_def Let_def split: option.splits)

lemma stopAudioOutput_fields:
  "isInterruptedRef (stopAudioOutput s) = isInterruptedRef s"
  "timeouts (stopAudioOutput s) = timeouts s"
  "wallClock (stopAudioOutput s) = wallClock s"
  "mountedRef (stopAudioOutput s) = mountedRef s"
  "isTextLoading (stopAudioOutput s) = isTextLoading s"
  "textRequest (stopAudioOutput s) = textRequest s"
  "isVoiceMode (stopAudioOutput s) = isVoiceMode s"
  by (simp_all add: stopAudioOutput_def setAiSpeaking_if_mounted_def Let_def split: option.splits)

lemma handleLiveMessage_turnComplete:
  assumes "turnComplete m" "\<not> interrupted m"
  shows "isInterruptedRef (handleLiveMessage m s) = False"
    and "timeouts (handleLiveMessage m s) = timeouts s @ [wallClock s + 500]"
    and "wallClock (handleLiveMessage m s) = wallClock s"
    and "mountedRef (handleLiveMessage m s) = mountedRef s"
  using assms
  by (simp_all add: handleLiveMessage_def Let_def playAudioResponse_fields split: sum.splits)

text \<open>
  Claim C5, amended. For every inbound message that carries the turn-complete signal and not
  the interrupted signal, the handler clears the interruption flag at once and registers a
  timeout due 500 ms later; what that timeout does is set \<open>aiSpeaking\<close> to false if the
  component is still mounted. The grace delay applies to the speaking indicator, not to the
  interruption flag.
\<close>

theorem handleLiveMessage_grace_delay:
  assumes "turnComplete m" and "\<not> interrupted m"
  shows "isInterruptedRef (handleLiveMessage m s) = False \<and>
         wallClock (handleLiveMessage m s) = wallClock s \<and>
         timeouts (handleLiveMessage m s) = timeouts s @ [wallClock s + 500] \<and>
         (\<forall>ms. ms < 500 \<and> timeouts s = [] \<longrightarrow>
            aiSpeaking (advance_wall ms (handleLiveMessage m s)) =
              aiSpeaking (handleLiveMessage m s)) \<and>
         (\<forall>ms. 500 \<le> ms \<and> mountedRef s \<longrightarrow>
            aiSpeaking (advance_wall ms (handleLiveMessage m s)) = False)"
proof -
  note h = handleLiveMessage_turnComplete [OF assms, of s]
  have "aiSpeaking (advance_wall ms (handleLiveMessage m s)) = aiSpeaking (handleLiveMessage m s)"
    if "ms < 500" "timeouts s = []" for ms
    using that by (simp add: advance_wall_def Let_def h)
  moreover have "aiSpeaking (advance_wall ms (handleLiveMessage m s)) = False"
    if "500 \<le> ms" "mountedRef s" for ms
    using that by (simp add: advance_wall_def Let_def h setAiSpeaking_if_mounted_def)
  ultimately show ?thesis
    using h by blast
qed

theorem handleLiveMessage_grace_delay_witness:
  "turnComplete \<lparr>interrupted = False, turnComplete = True, audioData = None\<rparr> \<and>
   \<not> interrupted \<lparr>interrupted = False, turnComplete = True, audioData = None\<rparr> \<and>
   (499::nat) < 500 \<and> timeouts (initial_chat\<lparr>aiSpeaking := True\<rparr>) = [] \<and>
   (500::nat) \<le> 500 \<and> mountedRef (initial_chat\<lparr>aiSpeaking := True\<rparr>) \<and>
   isInterruptedRef
     (handleLiveMessage \<lparr>interrupted = False, turnComplete = True, audioData = None\<rparr>
        (initial_chat\<lparr>aiSpeaking := True\<rparr>)) = False \<and>
   aiSpeaking
     (advance_wall 499
        (handleLiveMessage \<lparr>interrupted = False, turnComplete = True, audioData = None\<rparr>
           (initial_chat\<lparr>aiSpeaking := True\<rparr>))) = True \<and>
   aiSpeaking
     (advance_wall 500
        (handleLiveMessage \<lparr>interrupted = False, turnComplete = True, audioData = None\<rparr>
           (initial_chat\<lparr>aiSpeaking := True\<rparr>))) = False"
proof -
  let ?m = "\<lparr>interrupted = False, turnComplete = True, audioData = None\<rparr>"
  let ?s = "initial_chat\<lparr>aiSpeaking := True\<rparr>"
  have a: "aiSpeaking (handleLiveMessage ?m ?s) = True"
    by (simp add: handleLiveMessage_def truthy_def)
  have t: "timeouts ?s = []" and mt: "mountedRef ?s"
    by (simp_all add: initial_chat_def)
  from handleLiveMessage_grace_delay [of ?m ?s]
  have g: "isInterruptedRef (handleLiveMessage ?m ?s) = False"
    "\<forall>ms. ms < 500 \<and> timeouts ?s = [] \<longrightarrow>
            aiSpeaking (advance_wall ms (handleLiveMessage ?m ?s)) =
              aiSpeaking (handleLiveMessage ?m ?s)"
    "\<forall>ms. 500 \<le> ms \<and> mountedRef ?s \<longrightarrow>
            aiSpeaking (advance_wall ms (handleLiveMessage ?m ?s)) = False"
    by simp_all
  from g(2) t a have "aiSpeaking (advance_wall 499 (handleLiveMessage ?m ?s)) = True"
    by simp
  moreover from g(3) mt have "aiSpeaking (advance_wall 500 (handleLiveMessage ?m ?s)) = False"
    by simp
  ultimately show ?thesis
    using g(1) t mt by simp
qed

subsection \<open>Contexts only grow\<close>

lemma stop_node_simps [simp]:
  "node_buffer (stop_node now n) = node_buffer n"
  "startTime (stop_node now n) = startTime n"
  "stopTime (stop_node now n) = Some (case stopTime n of None \<Rightarrow> now | Some ts \<Rightarrow> ts)"
  by (simp_all add: stop_node_def split: option.splits)

lemma stop_all_time [simp]: "currentTime (stop_all is c) = currentTime c"
  by (induction "is" arbitrary: c) simp_all

lemma stop_all_length [simp]: "length (nodes (stop_all is c)) = length (nodes c)"
  by (induction "is" arbitrary: c) simp_all

lemma stop_all_buffer [simp]:
  "i < length (nodes c) \<Longrightarrow> node_buffer (nodes (stop_all is c) ! i) = node_buffer (nodes c ! i)"
  by (induction "is" arbitrary: c) (simp_all add: nth_list_update)

lemma stop_all_start [simp]:
  "i < length (nodes c) \<Longrightarrow> startTime (nodes (stop_all is c) ! i) = startTime (nodes c ! i)"
  by (induction "is" arbitrary: c) (simp_all add: nth_list_update)

lemma stop_all_stop:
  "i < length (nodes c) \<Longrightarrow>
   stopTime (nodes (stop_all is c) ! i) =
     (if i \<in> set is
      then Some (case stopTime (nodes c ! i) of None \<Rightarrow> currentTime c | Some ts \<Rightarrow> ts)
      else stopTime (nodes c ! i))"
proof (induction "is" arbitrary: c)
  case Nil
  then show ?case by simp
next
  case (Cons j js)
  then show ?case
    by (auto simp: nth_list_update split: option.splits)
qed

lemma ctx_extends_refl: "ctx_extends c c"
  by (simp add: ctx_extends_def)

lemma ctx_extends_trans:
  assumes "ctx_extends a b" "ctx_extends b c"
  shows "ctx_extends a c"
  unfolding ctx_extends_def
proof (intro conjI allI impI)
  show "currentTime a \<le> currentTime c" "length (nodes a) \<le> length (nodes c)"
    using assms by (auto simp: ctx_extends_def)
next
  fix i assume i: "i < length (nodes a)"
  with assms have ib: "i < length (nodes b)"
    by (auto simp: ctx_extends_def)
  from assms(1) i have 1: "node_buffer (nodes b ! i) = node_buffer (nodes a ! i)"
    "startTime (nodes b ! i) = startTime (nodes a ! i)"
    "stopTime (nodes a ! i) \<noteq> None \<longrightarrow> stopTime (nodes b ! i) = stopTime (nodes a ! i)"
    by (simp_all add: ctx_extends_def)
  from assms(2) ib have 2: "node_buffer (nodes c ! i) = node_buffer (nodes b ! i)"
    "startTime (nodes c ! i) = startTime (nodes b ! i)"
    "stopTime (nodes b ! i) \<noteq> None \<longrightarrow> stopTime (nodes c ! i) = stopTime (nodes b ! i)"
    by (simp_all add: ctx_extends_def)
  show "node_buffer (nodes c ! i) = node_buffer (nodes a ! i)"
    "startTime (nodes c ! i) = startTime (nodes a ! i)"
    using 1 2 by simp_all
  show "stopTime (nodes c ! i) = stopTime (nodes a ! i)" if "stopTime (nodes a ! i) \<noteq> None"
    using 1 2 that by simp
next
  fix i assume "i < length (nodes c)" "length (nodes a) \<le> i"
  then have i: "length (nodes a) \<le> i \<and> i < length (nodes c)" by simp
  show "currentTime a \<le> startTime (nodes c ! i)"
  proof (cases "i < length (nodes b)")
    case True
    with assms(2) have "startTime (nodes c ! i) = startTime (nodes b ! i)"
      by (simp add: ctx_extends_def)
    moreover from assms(1) i True have "currentTime a \<le> startTime (nodes b ! i)"
      by (simp add: ctx_extends_def)
    ultimately show ?thesis by simp
  next
    case False
    with assms(2) i have "currentTime b \<le> startTime (nodes c ! i)"
      by (simp add: ctx_extends_def)
    moreover from assms(1) have "currentTime a \<le> currentTime b"
      by (simp add: ctx_extends_def)
    ultimately show ?thesis by simp
  qed
qed

lemma playAudioResponse_extends:
  assumes "outputAudioContextRef s = Some c"
  shows "\<exists>c'. outputAudioContextRef (playAudioResponse b s) = Some c' \<and> ctx_extends c c'"
  using assms
  by (auto simp: playAudioResponse_def Let_def ctx_extends_def nth_append)

lemma stopAudioOutput_ctx:
  assumes "outputAudioContextRef s = Some c"
  shows "outputAudioContextRef (stopAudioOutput s) = Some (stop_all (activeSourcesRef s) c)"
    and "activeSourcesRef (stopAudioOutput s) = []"
    and "nextStartTimeRef (stopAudioOutput s) = currentTime c"
  using assms by (simp_all add: stopAudioOutput_def setAiSpeaking_if_mounted_def Let_def)

lemma stop_all_extends: "ctx_extends c (stop_all is c)"
  by (auto simp: ctx_extends_def stop_all_stop)

lemma stopAudioOutput_extends:
  assumes "outputAudioContextRef s = Some c"
  shows "\<exists>c'. outputAudioContextRef (stopAudioOutput s) = Some c' \<and> ctx_extends c c'"
  using stopAudioOutput_ctx(1) [OF assms] stop_all_extends by blast

lemma handleLiveMessage_extends:
  assumes "outputAudioContextRef s = Some c"
  shows "\<exists>c'. outputAudioContextRef (handleLiveMessage m s) = Some c' \<and> ctx_extends c c'"
proof (cases "interrupted m")
  case True
  then show ?thesis
    using stopAudioOutput_extends [OF assms] by (simp add: handleLiveMessage_def)
next
  case False
  let ?s1 = "if turnComplete m
             then s\<lparr>isInterruptedRef := False, timeouts := timeouts s @ [wallClock s + 500]\<rparr>
             else s"
  have c1: "outputAudioContextRef (?s1\<lparr>aiSpeaking := True\<rparr>) = Some c"
    "outputAudioContextRef ?s1 = Some c"
    using assms by simp_all
  show ?thesis
    using False playAudioResponse_extends [OF c1(1)] c1 ctx_extends_refl [of c]
    by (auto simp: handleLiveMessage_def Let_def split: sum.splits)
qed

lemma handleSendText_extends:
  assumes "outputAudioContextRef s = Some c"
  shows "\<exists>c'. outputAudioContextRef (handleSendText s) = Some c' \<and> ctx_extends c c'"
  using assms stopAudioOutput_extends [OF assms] ctx_extends_refl [of c]
  by (auto simp: handleSendText_def Let_def)

lemma handleSendText_reply_extends:
  assumes "outputAudioContextRef s = Some c"
  shows "\<exists>c'. outputAudioContextRef (handleSendText_reply r s) = Some c' \<and> ctx_extends c c'"
  using assms ctx_extends_refl [of c]
  by (auto simp: handleSendText_reply_def handleSendText_finally_def Let_def
      split: text_request.splits settled.splits)

lemma handleSendText_speech_extends:
  assumes "outputAudioContextRef s = Some c"
  shows "\<exists>c'. outputAudioContextRef (handleSendText_speech r s) = Some c' \<and> ctx_extends c c'"
  using assms ctx_extends_refl [of c] playAudioResponse_extends [OF assms]
  by (auto simp: handleSendText_speech_def handleSendText_finally_def
      split: text_request.splits settled.splits sum.splits)

lemma step_extends:
  assumes "outputAudioContextRef s = Some c"
  shows "\<exists>c'. outputAudioContextRef (step e s) = Some c' \<and> ctx_extends c c'"
proof (cases e)
  case (AudioTime dt)
  with assms show ?thesis
    by (auto simp: advance_audio_def ctx_extends_def)
next
  case (Ended i)
  with assms ctx_extends_refl [of c] show ?thesis
    by (auto simp: fire_ended_def onended_def)
next
  case (WallTime ms)
  with assms ctx_extends_refl [of c] show ?thesis
    by (auto simp: advance_wall_def Let_def setAiSpeaking_if_mounted_def)
next
  case (LiveMessage m)
  with handleLiveMessage_extends [OF assms] show ?thesis by simp
next
  case (SubmitText str)
  from assms have "outputAudioContextRef (s\<lparr>input := str\<rparr>) = Some c" by simp
  from handleSendText_extends [OF this] SubmitText show ?thesis by simp
next
  case (TextReply r)
  with handleSendText_reply_extends [OF assms] show ?thesis by simp
next
  case (SpeechReply r)
  with handleSendText_speech_extends [OF assms] show ?thesis by simp
next
  case Unmount
  with assms ctx_extends_refl [of c] show ?thesis by simp
qed

lemma run_extends:
  "outputAudioContextRef s = Some c \<Longrightarrow>
   \<exists>c'. outputAudioContextRef (run evs s) = Some c' \<and> ctx_extends c c'"
proof (induction evs arbitrary: s c)
  case Nil
  then show ?case using ctx_extends_refl by simp
next
  case (Cons e evs)
  from step_extends [OF Cons.prems] obtain c1
    where c1: "outputAudioContextRef (step e s) = Some c1" "ctx_extends c c1" by blast
  from Cons.IH [OF c1(1)] obtain c'
    where "outputAudioContextRef (run evs (step e s)) = Some c'" "ctx_extends c1 c'" by blast
  with c1(2) show ?case
    using ctx_extends_trans by auto
qed

subsection \<open>The active set covers every unfinished node\<close>

lemma live_inv_cong:
  "outputAudioContextRef s' = outputAudioContextRef s \<Longrightarrow>
   activeSourcesRef s' = activeSourcesRef s \<Longrightarrow> live_inv s' = live_inv s"
  by (cases "outputAudioContextRef s") (simp_all add: live_inv_def)

lemma live_inv_Some:
  "outputAudioContextRef s = Some c \<Longrightarrow>
   live_inv s \<longleftrightarrow>
     (\<forall>i < length (nodes c).
        (\<not> finished c (nodes c ! i) \<longrightarrow> i \<in> set (activeSourcesRef s)) \<and>
        (\<forall>ts. stopTime (nodes c ! i) = Some ts \<longrightarrow> ts \<le> currentTime c))"
  by (auto simp: live_inv_def node_ok_def split: option.splits)

lemma live_inv_play:
  assumes "live_inv s"
  shows "live_inv (playAudioResponse b s)"
proof (cases "outputAudioContextRef s")
  case None
  with assms show ?thesis by (simp add: playAudioResponse_def)
next
  case (Some c)
  from assms Some have inv: "\<forall>i < length (nodes c).
        (\<not> finished c (nodes c ! i) \<longrightarrow> i \<in> set (activeSourcesRef s)) \<and>
        (\<forall>ts. stopTime (nodes c ! i) = Some ts \<longrightarrow> ts \<le> currentTime c)"
    by (simp add: live_inv_Some)
  let ?start = "if activeSourcesRef s = [] \<and> currentTime c + 0.5 < nextStartTimeRef s
                then currentTime c else max (nextStartTimeRef s) (currentTime c)"
  let ?c' = "c\<lparr>nodes := nodes c @ [\<lparr>node_buffer = b, startTime = ?start, stopTime = None\<rparr>]\<rparr>"
  have p: "outputAudioContextRef (playAudioResponse b s) = Some ?c'"
    "activeSourcesRef (playAudioResponse b s) = activeSourcesRef s @ [length (nodes c)]"
    unfolding playAudioResponse_Some [OF Some] Let_def by simp_all
  show ?thesis
    unfolding live_inv_Some [OF p(1)] p(2)
    using inv by (auto simp: nth_append finished_def less_Suc_eq)
qed

lemma live_inv_stop:
  assumes "live_inv s"
  shows "live_inv (stopAudioOutput s)"
proof (cases "outputAudioContextRef s")
  case None
  then show ?thesis
    by (simp add: stopAudioOutput_def setAiSpeaking_if_mounted_def live_inv_def Let_def)
next
  case (Some c)
  note sc = stopAudioOutput_ctx [OF Some]
  from assms Some have inv: "\<forall>i < length (nodes c).
        (\<not> finished c (nodes c ! i) \<longrightarrow> i \<in> set (activeSourcesRef s)) \<and>
        (\<forall>ts. stopTime (nodes c ! i) = Some ts \<longrightarrow> ts \<le> currentTime c)"
    by (simp add: live_inv_Some)
  have "finished (stop_all (activeSourcesRef s) c) (nodes (stop_all (activeSourcesRef s) c) ! i) \<and>
        (\<forall>ts. stopTime (nodes (stop_all (activeSourcesRef s) c) ! i) = Some ts \<longrightarrow>
           ts \<le> currentTime c)"
    if "i < length (nodes c)" for i
    using that inv [rule_format, OF that]
    by (auto simp: finished_def stop_all_stop split: option.splits)
  then show ?thesis
    unfolding live_inv_Some [OF sc(1)] by simp
qed

lemma live_inv_advance_audio:
  assumes "live_inv s"
  shows "live_inv (advance_audio dt s)"
proof (cases "outputAudioContextRef s")
  case None
  with assms show ?thesis by (simp add: advance_audio_def)
next
  case (Some c)
  from assms Some have inv: "\<forall>i < length (nodes c).
        (\<not> finished c (nodes c ! i) \<longrightarrow> i \<in> set (activeSourcesRef s)) \<and>
        (\<forall>ts. stopTime (nodes c ! i) = Some ts \<longrightarrow> ts \<le> currentTime c)"
    by (simp add: live_inv_Some)
  show ?thesis
  proof (cases "0 \<le> dt")
    case True
    have "(\<not> finished (c\<lparr>currentTime := currentTime c + dt\<rparr>) (nodes c ! i) \<longrightarrow>
             i \<in> set (activeSourcesRef s)) \<and>
          (\<forall>ts. stopTime (nodes c ! i) = Some ts \<longrightarrow> ts \<le> currentTime c + dt)"
      if "i < length (nodes c)" for i
      using that inv [rule_format, OF that] True
      by (auto simp: finished_def)
    moreover have "outputAudioContextRef (advance_audio dt s) =
        Some (c\<lparr>currentTime := currentTime c + dt\<rparr>)"
      "activeSourcesRef (advance_audio dt s) = activeSourcesRef s"
      using Some True by (simp_all add: advance_audio_def)
    ultimately show ?thesis
      by (simp add: live_inv_Some)
  next
    case False
    with assms Some show ?thesis by (simp add: advance_audio_def)
  qed
qed

lemma live_inv_fire_ended:
  assumes "live_inv s"
  shows "live_inv (fire_ended j s)"
proof (cases "outputAudioContextRef s")
  case None
  with assms show ?thesis by (simp add: fire_ended_def)
next
  case (Some c)
  from assms Some have inv: "\<forall>i < length (nodes c).
        (\<not> finished c (nodes c ! i) \<longrightarrow> i \<in> set (activeSourcesRef s)) \<and>
        (\<forall>ts. stopTime (nodes c ! i) = Some ts \<longrightarrow> ts \<le> currentTime c)"
    by (simp add: live_inv_Some)
  show ?thesis
  proof (cases "j < length (nodes c) \<and> finished c (nodes c ! j)")
    case True
    with Some have "outputAudioContextRef (fire_ended j s) = Some c"
      "activeSourcesRef (fire_ended j s) = removeAll j (activeSourcesRef s)"
      by (simp_all add: fire_ended_def onended_def)
    with True inv show ?thesis
      by (auto simp: live_inv_Some)
  next
    case False
    with assms Some show ?thesis by (auto simp: fire_ended_def)
  qed
qed

lemma live_inv_handleLiveMessage:
  assumes "live_inv s"
  shows "live_inv (handleLiveMessage m s)"
proof (cases "interrupted m")
  case True
  have "live_inv ((stopAudioOutput s)\<lparr>isInterruptedRef := True\<rparr>) = live_inv (stopAudioOutput s)"
    by (rule live_inv_cong) simp_all
  with True live_inv_stop [OF assms] show ?thesis
    by (simp add: handleLiveMessage_def)
next
  case False
  define s1 where "s1 = (if turnComplete m
             then s\<lparr>isInterruptedRef := False, timeouts := timeouts s @ [wallClock s + 500]\<rparr>
             else s)"
  have h: "handleLiveMessage m s =
      (if truthy (audioData m) \<and> outputAudioContextRef s1 \<noteq> None \<and> \<not> isInterruptedRef s1
       then (case base64ToAudioBuffer (the (audioData m)) 24000 of
               Inl e \<Rightarrow> s1\<lparr>aiSpeaking := True\<rparr>
             | Inr audioBuffer \<Rightarrow> playAudioResponse audioBuffer (s1\<lparr>aiSpeaking := True\<rparr>))
       else s1)"
    using False by (simp only: handleLiveMessage_def Let_def s1_def if_False)
  have "live_inv s1 = live_inv s"
    by (rule live_inv_cong) (simp_all add: s1_def)
  with assms have 1: "live_inv s1" by simp
  have "live_inv (s1\<lparr>aiSpeaking := True\<rparr>) = live_inv s1"
    by (rule live_inv_cong) simp_all
  with 1 have 2: "live_inv (s1\<lparr>aiSpeaking := True\<rparr>)" by simp
  from 1 2 live_inv_play [OF 2] show ?thesis
    unfolding h by (simp split: sum.splits)
qed

lemma live_inv_handleSendText:
  assumes "live_inv s"
  shows "live_inv (handleSendText s)"
proof -
  let ?s1 = "if isVoiceMode s then (stopAudioOutput s)\<lparr>isInterruptedRef := True\<rparr> else s"
  have "live_inv ((stopAudioOutput s)\<lparr>isInterruptedRef := True\<rparr>) = live_inv (stopAudioOutput s)"
    by (rule live_inv_cong) simp_all
  with assms live_inv_stop [OF assms] have 1: "live_inv ?s1" by simp
  have "live_inv (?s1\<lparr>messages := messages ?s1 @ [(USER, input s)], input := [],
               isTextLoading := True, textRequest := AwaitReply (isVoiceMode s)\<rparr>) = live_inv ?s1"
    by (rule live_inv_cong) simp_all
  with 1 assms show ?thesis
    by (simp add: handleSendText_def Let_def)
qed

lemma live_inv_finally:
  "live_inv (handleSendText_finally s) = live_inv s"
  unfolding handleSendText_finally_def by (rule live_inv_cong) simp_all

lemma live_inv_reply:
  assumes "live_inv s"
  shows "live_inv (handleSendText_reply r s)"
proof -
  have "live_inv (s\<lparr>messages := ms\<rparr>)" for ms
    using assms live_inv_cong [of "s\<lparr>messages := ms\<rparr>" s] by simp
  moreover have "live_inv (s\<lparr>messages := ms, textRequest := AwaitSpeech\<rparr>)" for ms
    using assms live_inv_cong [of "s\<lparr>messages := ms, textRequest := AwaitSpeech\<rparr>" s] by simp
  ultimately show ?thesis
    using assms
    by (simp add: handleSendText_reply_def Let_def live_inv_finally
        split: text_request.splits settled.splits)
qed

lemma live_inv_speech:
  assumes "live_inv s"
  shows "live_inv (handleSendText_speech r s)"
  using assms live_inv_play [OF assms]
  by (simp add: handleSendText_speech_def live_inv_finally
      split: text_request.splits settled.splits sum.splits)

lemma live_inv_step:
  assumes "live_inv s"
  shows "live_inv (step e s)"
proof (cases e)
  case (AudioTime dt)
  with assms show ?thesis by (simp add: live_inv_advance_audio)
next
  case (Ended i)
  with assms show ?thesis by (simp add: live_inv_fire_ended)
next
  case (WallTime ms)
  have "live_inv (advance_wall ms s) = live_inv s"
    by (rule live_inv_cong)
      (simp_all add: advance_wall_def Let_def setAiSpeaking_if_mounted_def)
  with WallTime assms show ?thesis by simp
next
  case (LiveMessage m)
  with assms show ?thesis by (simp add: live_inv_handleLiveMessage)
next
  case (SubmitText str)
  have "live_inv (s\<lparr>input := str\<rparr>) = live_inv s"
    by (rule live_inv_cong) simp_all
  with assms have "live_inv (handleSendText (s\<lparr>input := str\<rparr>))"
    by (intro live_inv_handleSendText) simp
  with SubmitText show ?thesis by simp
next
  case (TextReply r)
  with assms show ?thesis by (simp add: live_inv_reply)
next
  case (SpeechReply r)
  with assms show ?thesis by (simp add: live_inv_speech)
next
  case Unmount
  have "live_inv (s\<lparr>mountedRef := False\<rparr>) = live_inv s"
    by (rule live_inv_cong) simp_all
  with Unmount assms show ?thesis by simp
qed

lemma live_inv_run: "live_inv s \<Longrightarrow> live_inv (run evs s)"
  by (induction evs arbitrary: s) (simp_all add: live_inv_step)

lemma live_inv_initial: "live_inv initial_chat" "live_inv (voice_session initial_chat)"
  by (simp_all add: live_inv_def initial_chat_def voice_session_def)

subsection \<open>Interruption\<close>

lemma stopped_or_over:
  assumes "outputAudioContextRef s = Some c" "live_inv s" "i < length (nodes c)"
  shows "(\<exists>ts. stopTime (nodes (stop_all (activeSourcesRef s) c) ! i) = Some ts \<and> ts \<le> currentTime c) \<or>
         startTime (nodes c ! i) + duration (node_buffer (nodes c ! i)) \<le> currentTime c"
proof -
  from assms have inv: "\<not> finished c (nodes c ! i) \<longrightarrow> i \<in> set (activeSourcesRef s)"
    "\<forall>ts. stopTime (nodes c ! i) = Some ts \<longrightarrow> ts \<le> currentTime c"
    by (simp_all add: live_inv_Some)
  with assms(3) show ?thesis
    by (auto simp: stop_all_stop finished_def split: option.splits)
qed

lemma silent_after:
  assumes "outputAudioContextRef s = Some c" "live_inv s" "i < length (nodes c)"
    and "ctx_extends (stop_all (activeSourcesRef s) c) c'" "currentTime c \<le> t"
  shows "\<not> audible (nodes c' ! i) t"
proof -
  let ?c0 = "stop_all (activeSourcesRef s) c"
  from assms(3) have i0: "i < length (nodes ?c0)" by simp
  with assms(4) have same: "node_buffer (nodes c' ! i) = node_buffer (nodes c ! i)"
    "startTime (nodes c' ! i) = startTime (nodes c ! i)"
    "stopTime (nodes ?c0 ! i) \<noteq> None \<longrightarrow> stopTime (nodes c' ! i) = stopTime (nodes ?c0 ! i)"
    using assms(3) by (simp_all add: ctx_extends_def)
  from stopped_or_over [OF assms(1-3)] show ?thesis
  proof
    assume "\<exists>ts. stopTime (nodes ?c0 ! i) = Some ts \<and> ts \<le> currentTime c"
    then obtain ts where "stopTime (nodes ?c0 ! i) = Some ts" "ts \<le> currentTime c" by blast
    with same(3) assms(5) show ?thesis
      by (simp add: audible_def)
  next
    assume "startTime (nodes c ! i) + duration (node_buffer (nodes c ! i)) \<le> currentTime c"
    with same assms(5) show ?thesis
      by (simp add: audible_def)
  qed
qed

text \<open>
  Claim C3. Let \<^verbatim>\<open>stopAudioOutput\<close> run at clock reading \<open>t\<close> in a state whose active set covers
  every unfinished node. Then the active set is empty and \<open>nextStartTime\<close> is \<open>t\<close>; and
  whatever events follow in the session, no node that existed at the interruption is audible
  at any time from \<open>t\<close> on, a node that had not started by \<open>t\<close> is never audible at all, every
  node created afterwards starts at or after \<open>t\<close>, and so does the node of a
  \<^verbatim>\<open>playAudioResponse\<close> call made at that point.
\<close>

theorem stopAudioOutput_interrupt:
  assumes "outputAudioContextRef s = Some c" and "live_inv s"
  shows "activeSourcesRef (stopAudioOutput s) = [] \<and>
         nextStartTimeRef (stopAudioOutput s) = currentTime c \<and>
         (\<forall>evs. \<exists>c'. outputAudioContextRef (run evs (stopAudioOutput s)) = Some c' \<and>
            length (nodes c) \<le> length (nodes c') \<and>
            (\<forall>i < length (nodes c).
               node_buffer (nodes c' ! i) = node_buffer (nodes c ! i) \<and>
               startTime (nodes c' ! i) = startTime (nodes c ! i) \<and>
               (\<forall>t. currentTime c \<le> t \<longrightarrow> \<not> audible (nodes c' ! i) t) \<and>
               (currentTime c \<le> startTime (nodes c ! i) \<longrightarrow> (\<forall>t. \<not> audible (nodes c' ! i) t))) \<and>
            (\<forall>i. length (nodes c) \<le> i \<and> i < length (nodes c') \<longrightarrow>
               currentTime c \<le> startTime (nodes c' ! i)) \<and>
            (\<forall>buffer. \<exists>start.
               outputAudioContextRef (playAudioResponse buffer (run evs (stopAudioOutput s))) =
                 Some (c'\<lparr>nodes := nodes c' @
                         [\<lparr>node_buffer = buffer, startTime = start, stopTime = None\<rparr>]\<rparr>) \<and>
               currentTime c \<le> start))"
proof -
  let ?c0 = "stop_all (activeSourcesRef s) c"
  note sc = stopAudioOutput_ctx [OF assms(1)]
  have "\<exists>c'. outputAudioContextRef (run evs (stopAudioOutput s)) = Some c' \<and>
            length (nodes c) \<le> length (nodes c') \<and>
            (\<forall>i < length (nodes c).
               node_buffer (nodes c' ! i) = node_buffer (nodes c ! i) \<and>
               startTime (nodes c' ! i) = startTime (nodes c ! i) \<and>
               (\<forall>t. currentTime c \<le> t \<longrightarrow> \<not> audible (nodes c' ! i) t) \<and>
               (currentTime c \<le> startTime (nodes c ! i) \<longrightarrow> (\<forall>t. \<not> audible (nodes c' ! i) t))) \<and>
            (\<forall>i. length (nodes c) \<le> i \<and> i < length (nodes c') \<longrightarrow>
               currentTime c \<le> startTime (nodes c' ! i)) \<and>
            (\<forall>buffer. \<exists>start.
               outputAudioContextRef (playAudioResponse buffer (run evs (stopAudioOutput s))) =
                 Some (c'\<lparr>nodes := nodes c' @
                         [\<lparr>node_buffer = buffer, startTime = start, stopTime = None\<rparr>]\<rparr>) \<and>
               currentTime c \<le> start)" for evs
  proof -
    from run_extends [OF sc(1), of evs] obtain c'
      where c': "outputAudioContextRef (run evs (stopAudioOutput s)) = Some c'"
        and ext: "ctx_extends ?c0 c'" by blast
    from ext have len: "length (nodes c) \<le> length (nodes c')"
      and clock: "currentTime c \<le> currentTime c'"
      by (simp_all add: ctx_extends_def)
    have old: "node_buffer (nodes c' ! i) = node_buffer (nodes c ! i) \<and>
               startTime (nodes c' ! i) = startTime (nodes c ! i) \<and>
               (\<forall>t. currentTime c \<le> t \<longrightarrow> \<not> audible (nodes c' ! i) t) \<and>
               (currentTime c \<le> startTime (nodes c ! i) \<longrightarrow> (\<forall>t. \<not> audible (nodes c' ! i) t))"
      if i: "i < length (nodes c)" for i
    proof -
      from ext i have same: "node_buffer (nodes c' ! i) = node_buffer (nodes c ! i)"
        "startTime (nodes c' ! i) = startTime (nodes c ! i)"
        by (simp_all add: ctx_extends_def)
      have silent: "\<not> audible (nodes c' ! i) t" if "currentTime c \<le> t" for t
        using silent_after [OF assms i ext that] .
      have "\<not> audible (nodes c' ! i) t" if "currentTime c \<le> startTime (nodes c ! i)" for t
      proof (cases "currentTime c \<le> t")
        case True
        then show ?thesis by (rule silent)
      next
        case False
        with that same show ?thesis by (simp add: audible_def)
      qed
      with same silent show ?thesis by blast
    qed
    have new: "currentTime c \<le> startTime (nodes c' ! i)"
      if "length (nodes c) \<le> i \<and> i < length (nodes c')" for i
      using ext that by (simp add: ctx_extends_def)
    have play: "\<exists>start.
               outputAudioContextRef (playAudioResponse buffer (run evs (stopAudioOutput s))) =
                 Some (c'\<lparr>nodes := nodes c' @
                         [\<lparr>node_buffer = buffer, startTime = start, stopTime = None\<rparr>]\<rparr>) \<and>
               currentTime c \<le> start" for buffer
      using clock by (auto simp: playAudioResponse_Some [OF c'] Let_def)
    from c' len old new play show ?thesis
      by blast
  qed
  with sc(2,3) show ?thesis
    by blast
qed

theorem stopAudioOutput_interrupt_witness:
  "outputAudioContextRef
     (playAudioResponse \<lparr>numberOfChannels = 1, sampleRate = 24000, channelData = replicate 24000 0\<rparr>
       (advance_audio (1 / 2)
         (playAudioResponse \<lparr>numberOfChannels = 1, sampleRate = 24000, channelData = replicate 24000 0\<rparr>
           (voice_session initial_chat)))) =
     Some \<lparr>currentTime = 1 / 2,
           nodes = [\<lparr>node_buffer = \<lparr>numberOfChannels = 1, sampleRate = 24000, channelData = replicate 24000 0\<rparr>,
                      startTime = 0, stopTime = None\<rparr>,
                    \<lparr>node_buffer = \<lparr>numberOfChannels = 1, sampleRate = 24000, channelData = replicate 24000 0\<rparr>,
                      startTime = 1, stopTime = None\<rparr>]\<rparr> \<and>
   live_inv
     (playAudioResponse \<lparr>numberOfChannels = 1, sampleRate = 24000, channelData = replicate 24000 0\<rparr>
       (advance_audio (1 / 2)
         (playAudioResponse \<lparr>numberOfChannels = 1, sampleRate = 24000, channelData = replicate 24000 0\<rparr>
           (voice_session initial_chat)))) \<and>
   nextStartTimeRef
     (stopAudioOutput
       (playAudioResponse \<lparr>numberOfChannels = 1, sampleRate = 24000, channelData = replicate 24000 0\<rparr>
         (advance_audio (1 / 2)
           (playAudioResponse \<lparr>numberOfChannels = 1, sampleRate = 24000, channelData = replicate 24000 0\<rparr>
             (voice_session initial_chat))))) = 1 / 2 \<and>
   (\<exists>c'. outputAudioContextRef
       (run [AudioTime 1]
         (stopAudioOutput
           (playAudioResponse \<lparr>numberOfChannels = 1, sampleRate = 24000, channelData = replicate 24000 0\<rparr>
             (advance_audio (1 / 2)
               (playAudioResponse \<lparr>numberOfChannels = 1, sampleRate = 24000, channelData = replicate 24000 0\<rparr>
                 (voice_session initial_chat)))))) = Some c' \<and>
      startTime (nodes c' ! 1) = 1 \<and> \<not> audible (nodes c' ! 1) (5 / 4) \<and>
      \<not> audible (nodes c' ! 0) (3 / 4))"
proof -
  let ?B = "\<lparr>numberOfChannels = 1, sampleRate = 24000, channelData = replicate 24000 0\<rparr>"
  let ?S = "playAudioResponse ?B (advance_audio (1 / 2) (playAudioResponse ?B (voice_session initial_chat)))"
  let ?C = "\<lparr>currentTime = 1 / 2,
           nodes = [\<lparr>node_buffer = ?B, startTime = 0, stopTime = None\<rparr>,
                    \<lparr>node_buffer = ?B, startTime = 1, stopTime = None\<rparr>]\<rparr>"
  have c: "outputAudioContextRef ?S = Some ?C"
    by (simp add: playAudioResponse_def advance_audio_def voice_session_def initial_chat_def
        Let_def duration_def)
  have inv: "live_inv ?S"
    by (intro live_inv_play live_inv_advance_audio live_inv_initial)
  from stopAudioOutput_interrupt [OF c inv]
  have n: "nextStartTimeRef (stopAudioOutput ?S) = currentTime ?C"
    and r: "\<exists>c'. outputAudioContextRef (run [AudioTime 1] (stopAudioOutput ?S)) = Some c' \<and>
            (\<forall>i < length (nodes ?C).
               startTime (nodes c' ! i) = startTime (nodes ?C ! i) \<and>
               (\<forall>t. currentTime ?C \<le> t \<longrightarrow> \<not> audible (nodes c' ! i) t) \<and>
               (currentTime ?C \<le> startTime (nodes ?C ! i) \<longrightarrow> (\<forall>t. \<not> audible (nodes c' ! i) t)))"
    by blast+
  from r obtain c' where c': "outputAudioContextRef (run [AudioTime 1] (stopAudioOutput ?S)) = Some c'"
    and old: "\<forall>i < length (nodes ?C).
               startTime (nodes c' ! i) = startTime (nodes ?C ! i) \<and>
               (\<forall>t. currentTime ?C \<le> t \<longrightarrow> \<not> audible (nodes c' ! i) t) \<and>
               (currentTime ?C \<le> startTime (nodes ?C ! i) \<longrightarrow> (\<forall>t. \<not> audible (nodes c' ! i) t))"
    by blast
  from old [rule_format, of 1] have "startTime (nodes c' ! 1) = 1" "\<not> audible (nodes c' ! 1) (5 / 4)"
    by simp_all
  moreover from old [rule_format, of 0] have "\<not> audible (nodes c' ! 0) (3 / 4)"
    by simp
  ultimately show ?thesis
    using c inv n c' by simp
qed

subsection \<open>Text submitted in voice mode\<close>

lemma handleSendText_finally_fields [simp]:
  "isInterruptedRef (handleSendText_finally s) = False"
  "isTextLoading (handleSendText_finally s) = False"
  "textRequest (handleSendText_finally s) = NoRequest"
  by (simp_all add: handleSendText_finally_def)

lemma handleLiveMessage_textRequest: "textRequest (handleLiveMessage m s) = textRequest s"
  by (simp add: handleLiveMessage_def Let_def stopAudioOutput_fields playAudioResponse_fields
      split: sum.splits)

lemma step_completes:
  assumes "textRequest s \<noteq> NoRequest" "textRequest (step e s) = NoRequest"
  shows "\<not> isInterruptedRef (step e s) \<and> \<not> isTextLoading (step e s)"
proof (cases e)
  case (AudioTime dt)
  with assms show ?thesis by (auto simp: advance_audio_def split: option.splits if_splits)
next
  case (Ended i)
  with assms show ?thesis
    by (auto simp: fire_ended_def onended_def split: option.splits if_splits)
next
  case (WallTime ms)
  with assms show ?thesis
    by (auto simp: advance_wall_def Let_def setAiSpeaking_if_mounted_def split: if_splits)
next
  case (LiveMessage m)
  with assms show ?thesis by (simp add: handleLiveMessage_textRequest)
next
  case (SubmitText str)
  with assms show ?thesis
    by (auto simp: handleSendText_def Let_def split: if_splits)
next
  case (TextReply r)
  with assms show ?thesis
    by (auto simp: handleSendText_reply_def Let_def split: text_request.splits settled.splits if_splits)
next
  case (SpeechReply r)
  with assms show ?thesis
    by (auto simp: handleSendText_speech_def split: text_request.splits)
next
  case Unmount
  with assms show ?thesis by simp
qed

text \<open>
  Claim C10. A submission in voice mode sets the interruption flag and starts a request. A
  request waiting for the reply ends when the reply is rejected, or is fulfilled outside
  voice mode or after unmounting, and otherwise goes on to wait for the speech; a request
  waiting for the speech ends when the speech settles either way. Whatever else happened in
  between, the event that ends a request leaves the interruption flag and
  \<open>isTextLoading\<close> false.
\<close>

theorem handleSendText_resets_flag:
  "(isVoiceMode s \<and> \<not> trim_empty (input s) \<and> \<not> isTextLoading s \<longrightarrow>
      isInterruptedRef (handleSendText s) \<and> textRequest (handleSendText s) = AwaitReply True) \<and>
   (\<forall>voice. textRequest s = AwaitReply voice \<longrightarrow>
      textRequest (handleSendText_reply Rejected s) = NoRequest \<and>
      (\<forall>text. textRequest (handleSendText_reply (Fulfilled text) s) =
         (if voice \<and> mountedRef s then AwaitSpeech else NoRequest))) \<and>
   (textRequest s = AwaitSpeech \<longrightarrow> (\<forall>r. textRequest (handleSendText_speech r s) = NoRequest)) \<and>
   (\<forall>e. textRequest s \<noteq> NoRequest \<and> textRequest (step e s) = NoRequest \<longrightarrow>
      \<not> isInterruptedRef (step e s) \<and> \<not> isTextLoading (step e s))"
proof -
  have "isInterruptedRef (handleSendText s) \<and> textRequest (handleSendText s) = AwaitReply True"
    if "isVoiceMode s \<and> \<not> trim_empty (input s) \<and> \<not> isTextLoading s"
    using that by (simp add: handleSendText_def Let_def)
  moreover have "textRequest (handleSendText_reply Rejected s) = NoRequest \<and>
      (\<forall>text. textRequest (handleSendText_reply (Fulfilled text) s) =
         (if voice \<and> mountedRef s then AwaitSpeech else NoRequest))"
    if "textRequest s = AwaitReply voice" for voice
    using that by (simp add: handleSendText_reply_def Let_def)
  moreover have "textRequest (handleSendText_speech r s) = NoRequest"
    if "textRequest s = AwaitSpeech" for r
    using that by (simp add: handleSendText_speech_def)
  ultimately show ?thesis
    using step_completes by blast
qed

theorem handleSendText_resets_flag_witness:
  "isVoiceMode ((voice_session initial_chat)\<lparr>input := ''hi''\<rparr>) \<and>
   \<not> trim_empty (input ((voice_session initial_chat)\<lparr>input := ''hi''\<rparr>)) \<and>
   \<not> isTextLoading ((voice_session initial_chat)\<lparr>input := ''hi''\<rparr>) \<and>
   isInterruptedRef (run [SubmitText ''hi''] (voice_session initial_chat)) \<and>
   textRequest (run [SubmitText ''hi'', TextReply (Fulfilled ''ok'')] (voice_session initial_chat))
     = AwaitSpeech \<and>
   textRequest (run [SubmitText ''hi'', TextReply (Fulfilled ''ok''), SpeechReply Rejected]
     (voice_session initial_chat)) = NoRequest \<and>
   \<not> isInterruptedRef (run [SubmitText ''hi'', TextReply (Fulfilled ''ok''), SpeechReply Rejected]
     (voice_session initial_chat))"
proof -
  let ?s0 = "(voice_session initial_chat)\<lparr>input := ''hi''\<rparr>"
  have h0: "isVoiceMode ?s0" "\<not> trim_empty (input ?s0)" "\<not> isTextLoading ?s0"
    by (simp_all add: voice_session_def initial_chat_def trim_empty_def js_whitespace_def)
  from handleSendText_resets_flag [of ?s0] h0
  have 1: "isInterruptedRef (handleSendText ?s0)" "textRequest (handleSendText ?s0) = AwaitReply True"
    by blast+
  have m: "mountedRef (handleSendText ?s0)"
    by (simp add: handleSendText_def Let_def stopAudioOutput_fields voice_session_def
        initial_chat_def trim_empty_def js_whitespace_def)
  from handleSendText_resets_flag [of "handleSendText ?s0", THEN conjunct2, THEN conjunct1,
      rule_format, OF 1(2)] m
  have 2: "textRequest (handleSendText_reply (Fulfilled ''ok'') (handleSendText ?s0)) = AwaitSpeech"
    by simp
  let ?s2 = "handleSendText_reply (Fulfilled ''ok'') (handleSendText ?s0)"
  from handleSendText_resets_flag [of ?s2] 2
  have 3: "textRequest (handleSendText_speech Rejected ?s2) = NoRequest"
    by blast
  from handleSendText_resets_flag [of ?s2, THEN conjunct2, THEN conjunct2, THEN conjunct2,
      rule_format, of "SpeechReply Rejected"] 2 3
  have 4: "\<not> isInterruptedRef (handleSendText_speech Rejected ?s2)"
    by simp
  from h0 1 2 3 4 show ?thesis
    by simp
qed

section \<open>Properties of the narration player\<close>

subsection \<open>What the helpers leave alone\<close>

lemma stopPlayback_fields [simp]:
  "audioCache (stopPlayback s) = audioCache s" "mounted (stopPlayback s) = mounted s"
  "currentChunk (stopPlayback s) = currentChunk s" "isPlaying (stopPlayback s) = isPlaying s"
  "isLoading (stopPlayback s) = isLoading s" "error (stopPlayback s) = error s"
  "audioContextRef (stopPlayback s) = audioContextRef s"
  "loadingTimeoutRef (stopPlayback s) = loadingTimeoutRef s"
  "effects (stopPlayback s) = effects s" "clock (stopPlayback s) = clock s"
  "timers (stopPlayback s) = timers s" "nextTimerId (stopPlayback s) = nextTimerId s"
  "inflight (stopPlayback s) = inflight s" "fetches (stopPlayback s) = fetches s"
  by (simp_all add: stopPlayback_def)

lemma playBuffer_fields [simp]:
  "audioCache (playBuffer b s) = audioCache s" "mounted (playBuffer b s) = mounted s"
  "currentChunk (playBuffer b s) = currentChunk s" "isPlaying (playBuffer b s) = isPlaying s"
  "isLoading (playBuffer b s) = isLoading s" "error (playBuffer b s) = error s"
  "audioContextRef (playBuffer b s) = audioContextRef s"
  "loadingTimeoutRef (playBuffer b s) = loadingTimeoutRef s"
  "effects (playBuffer b s) = effects s" "clock (playBuffer b s) = clock s"
  "timers (playBuffer b s) = timers s" "nextTimerId (playBuffer b s) = nextTimerId s"
  "inflight (playBuffer b s) = inflight s" "fetches (playBuffer b s) = fetches s"
  by (simp_all add: playBuffer_def)

lemma finish_load_fields [simp]:
  "audioCache (finish_load e b s) = audioCache s" "mounted (finish_load e b s) = mounted s"
  "currentChunk (finish_load e b s) = currentChunk s"
  "error (finish_load e b s) = error s"
  "audioContextRef (finish_load e b s) = audioContextRef s"
  "loadingTimeoutRef (finish_load e b s) = loadingTimeoutRef s"
  "effects (finish_load e b s) = effects s" "clock (finish_load e b s) = clock s"
  "timers (finish_load e b s) = timers s" "nextTimerId (finish_load e b s) = nextTimerId s"
  "inflight (finish_load e b s) = inflight s" "fetches (finish_load e b s) = fetches s"
  by (simp_all add: finish_load_def Let_def)

lemma catch_load_fields [simp]:
  "audioCache (catch_load e s) = audioCache s" "mounted (catch_load e s) = mounted s"
  "currentChunk (catch_load e s) = currentChunk s"
  "audioContextRef (catch_load e s) = audioContextRef s"
  "loadingTimeoutRef (catch_load e s) = loadingTimeoutRef s"
  "effects (catch_load e s) = effects s" "clock (catch_load e s) = clock s"
  "timers (catch_load e s) = timers s" "nextTimerId (catch_load e s) = nextTimerId s"
  "inflight (catch_load e s) = inflight s" "fetches (catch_load e s) = fetches s"
  by (simp_all add: catch_load_def)

lemma toggle_fields [simp]:
  "audioCache (toggle s) = audioCache s" "mounted (toggle s) = mounted s"
  "currentChunk (toggle s) = currentChunk s"
  "isLoading (toggle s) = isLoading s" "error (toggle s) = error s"
  "audioContextRef (toggle s) = audioContextRef s"
  "loadingTimeoutRef (toggle s) = loadingTimeoutRef s"
  "effects (toggle s) = effects s" "clock (toggle s) = clock s"
  "timers (toggle s) = timers s" "nextTimerId (toggle s) = nextTimerId s"
  "inflight (toggle s) = inflight s" "fetches (toggle s) = fetches s"
  by (simp_all add: toggle_def split: option.splits)

text \<open>The invariant reads only the loader's bookkeeping.\<close>

lemma player_inv_cong:
  assumes "inflight s' = inflight s" "timers s' = timers s" "effects s' = effects s"
    "audioCache s' = audioCache s" "loadingTimeoutRef s' = loadingTimeoutRef s"
    "nextTimerId s' = nextTimerId s" "clock s' = clock s" "mounted s' = mounted s"
    "audioContextRef s' = audioContextRef s" "currentChunk s' = currentChunk s"
  shows "player_inv s' = player_inv s"
  using assms by (simp add: player_inv_def timer_ok_def)

lemma loadAudio_miss:
  assumes "audioContextRef s" "audioCache s (chunk_id (eff_chunk (effects s ! e))) = None"
  shows "loadAudio e s =
     (stopPlayback s)\<lparr>progress := 0, error := None, isLoading := True,
        fetches := fetches s @ [eff_chunk (effects s ! e)], inflight := inflight s @ [e]\<rparr>"
  using assms by (simp add: loadAudio_def Let_def)

lemma loadAudio_hit:
  assumes "audioContextRef s" "audioCache s (chunk_id (eff_chunk (effects s ! e))) = Some b"
  shows "loadAudio e s =
     finish_load e b ((stopPlayback s)\<lparr>progress := 0, error := None, isLoading := True\<rparr>)"
  using assms by (simp add: loadAudio_def Let_def)

lemma loadAudio_fields [simp]:
  "audioCache (loadAudio e s) = audioCache s" "mounted (loadAudio e s) = mounted s"
  "currentChunk (loadAudio e s) = currentChunk s"
  "audioContextRef (loadAudio e s) = audioContextRef s"
  "loadingTimeoutRef (loadAudio e s) = loadingTimeoutRef s"
  "effects (loadAudio e s) = effects s" "clock (loadAudio e s) = clock s"
  "timers (loadAudio e s) = timers s" "nextTimerId (loadAudio e s) = nextTimerId s"
  by (simp_all add: loadAudio_def Let_def split: option.splits)

lemma loadAudio_inv:
  assumes "player_inv s" "timers s = []" "e < length (effects s)" "e \<notin> set (inflight s)"
  shows "player_inv (loadAudio e s)"
proof (cases "audioContextRef s")
  case False
  with assms show ?thesis by (simp add: loadAudio_def)
next
  case True
  show ?thesis
  proof (cases "audioCache s (chunk_id (eff_chunk (effects s ! e)))")
    case None
    with assms show ?thesis
      unfolding loadAudio_miss [OF True None]
      by (auto simp: player_inv_def)
  next
    case (Some b)
    have "player_inv (loadAudio e s) = player_inv s"
      unfolding loadAudio_hit [OF True Some]
      by (rule player_inv_cong) simp_all
    with assms show ?thesis by simp
  qed
qed

lemma cleanup_effect_fields [simp]:
  "audioCache (cleanup_effect s) = audioCache s" "mounted (cleanup_effect s) = mounted s"
  "currentChunk (cleanup_effect s) = currentChunk s" "isPlaying (cleanup_effect s) = isPlaying s"
  "isLoading (cleanup_effect s) = isLoading s" "error (cleanup_effect s) = error s"
  "audioContextRef (cleanup_effect s) = audioContextRef s"
  "loadingTimeoutRef (cleanup_effect s) = loadingTimeoutRef s"
  "clock (cleanup_effect s) = clock s" "nextTimerId (cleanup_effect s) = nextTimerId s"
  "inflight (cleanup_effect s) = inflight s" "fetches (cleanup_effect s) = fetches s"
  "length (effects (cleanup_effect s)) = length (effects s)"
  "retryTrigger (cleanup_effect s) = retryTrigger s"
  by (simp_all add: cleanup_effect_def clear_loadingTimeout_def clearTimeout_def split: option.splits)

lemma cleanup_effect_effects:
  "e < length (effects s) \<Longrightarrow>
   effects (cleanup_effect s) ! e =
     (if Suc e = length (effects s) then (effects s ! e)\<lparr>active := False\<rparr> else effects s ! e)"
  by (auto simp: cleanup_effect_def clear_loadingTimeout_def clearTimeout_def last_conv_nth
      nth_list_update split: option.splits)

lemma cleanup_effect_timers:
  assumes "player_inv s"
  shows "timers (cleanup_effect s) = []"
proof -
  from assms have "\<forall>t \<in> set (timers s). loadingTimeoutRef s = Some (timer_id t)"
    by (simp add: player_inv_def timer_ok_def)
  then have "filter (\<lambda>x. timer_id x \<noteq> r) (timers s) = []" if "loadingTimeoutRef s = Some r" for r
    using that by (auto simp: filter_empty_conv)
  moreover have "timers s = []" if "loadingTimeoutRef s = None"
    using that \<open>\<forall>t \<in> set (timers s). loadingTimeoutRef s = Some (timer_id t)\<close>
    by (cases "timers s") auto
  ultimately show ?thesis
    by (auto simp: cleanup_effect_def clear_loadingTimeout_def clearTimeout_def split: option.splits)
qed

lemma cleanup_effect_inactive:
  assumes "player_inv s" "e < length (effects s)"
  shows "\<not> active (effects (cleanup_effect s) ! e)"
  using assms by (auto simp: cleanup_effect_effects player_inv_def)

subsection \<open>The bookkeeping holds in every reachable state\<close>

lemma quiet_cong:
  assumes "inflight s' = inflight s" "timers s' = timers s" "effects s' = effects s"
  shows "quiet s' = quiet s"
  using assms by (simp add: quiet_def)

lemma cleanup_effect_quiet:
  assumes "player_inv s"
  shows "quiet (cleanup_effect s)"
  unfolding quiet_def
proof (intro conjI ballI allI impI)
  show "distinct (inflight (cleanup_effect s))"
    using assms by (simp add: player_inv_def)
  show "timers (cleanup_effect s) = []"
    using assms by (rule cleanup_effect_timers)
  show "e < length (effects (cleanup_effect s))" if "e \<in> set (inflight (cleanup_effect s))" for e
    using that assms by (simp add: player_inv_def)
  show "\<not> active (effects (cleanup_effect s) ! e)" if "e < length (effects (cleanup_effect s))" for e
    using that assms cleanup_effect_inactive by simp
qed

lemma run_effect_hit:
  assumes "audioCache s (chunk_id (currentChunk s)) \<noteq> None"
  shows "run_effect s =
     loadAudio (length (effects s))
       (s\<lparr>effects := effects s @
           [\<lparr>eff_chunk = currentChunk s, eff_isPlaying = isPlaying s, active = True\<rparr>]\<rparr>)"
  using assms by (simp add: run_effect_def Let_def)

lemma run_effect_miss:
  assumes "audioCache s (chunk_id (currentChunk s)) = None" "timers s = []"
  shows "run_effect s =
     s\<lparr>effects := effects s @
           [\<lparr>eff_chunk = currentChunk s, eff_isPlaying = isPlaying s, active = True\<rparr>],
       timers := [\<lparr>timer_id = nextTimerId s, due = clock s + 1000, timer_eff = length (effects s)\<rparr>],
       loadingTimeoutRef := Some (nextTimerId s),
       nextTimerId := nextTimerId s + 1\<rparr>"
  using assms
  by (simp add: run_effect_def Let_def clear_loadingTimeout_def clearTimeout_def split: option.splits)

lemma run_effect_inv:
  assumes "quiet s" "mounted s" "audioContextRef s"
  shows "player_inv (run_effect s)"
proof (cases "audioCache s (chunk_id (currentChunk s))")
  case None
  from assms(1) have t: "timers s = []" by (simp add: quiet_def)
  from assms show ?thesis
    unfolding run_effect_miss [OF None t]
    by (auto simp: player_inv_def quiet_def timer_ok_def nth_append)
next
  case (Some b)
  let ?s1 = "s\<lparr>effects := effects s @
           [\<lparr>eff_chunk = currentChunk s, eff_isPlaying = isPlaying s, active = True\<rparr>]\<rparr>"
  from assms have "player_inv ?s1"
    by (auto simp: player_inv_def quiet_def nth_append)
  moreover from assms have "timers ?s1 = []" "length (effects s) \<notin> set (inflight ?s1)"
    by (auto simp: quiet_def)
  ultimately have "player_inv (loadAudio (length (effects s)) ?s1)"
    by (intro loadAudio_inv) simp_all
  with Some show ?thesis
    by (simp add: run_effect_hit)
qed

lemma timers_at_most_one:
  assumes "player_inv s"
  shows "timers s = [] \<or> (\<exists>t. timers s = [t])"
proof (cases "timers s")
  case Nil
  then show ?thesis by simp
next
  case (Cons t ts)
  from assms have ids: "\<forall>x \<in> set (timers s). loadingTimeoutRef s = Some (timer_id x)"
    and d: "distinct (map timer_id (timers s))"
    by (simp_all add: player_inv_def timer_ok_def)
  have "ts = []"
  proof (cases ts)
    case Nil
    then show ?thesis .
  next
    case (Cons u us)
    with \<open>timers s = t # ts\<close> ids have "timer_id u = timer_id t" by auto
    with d \<open>timers s = t # ts\<close> Cons show ?thesis by simp
  qed
  with Cons show ?thesis by simp
qed

lemma tick_none:
  assumes "timers s = []"
  shows "tick ms s = s\<lparr>clock := clock s + ms\<rparr>"
  using assms by (simp add: tick_def Let_def)

lemma tick_early:
  assumes "timers s = [t]" "clock s + ms < due t"
  shows "tick ms s = s\<lparr>clock := clock s + ms\<rparr>"
  using assms by (simp add: tick_def Let_def)

lemma tick_fire:
  assumes "timers s = [t]" "due t \<le> clock s + ms"
  shows "tick ms s = loadAudio (timer_eff t) (s\<lparr>clock := clock s + ms, timers := []\<rparr>)"
  using assms by (simp add: tick_def Let_def)

lemma tick_inv:
  assumes "player_inv s"
  shows "player_inv (tick ms s)"
proof -
  from timers_at_most_one [OF assms] consider "timers s = []" | t where "timers s = [t]"
    by blast
  then show ?thesis
  proof cases
    case 1
    with assms show ?thesis
      unfolding tick_none [OF 1] by (simp add: player_inv_def)
  next
    case 2
    from assms 2 have ok: "timer_ok s t" by (simp add: player_inv_def)
    show ?thesis
    proof (cases "due t \<le> clock s + ms")
      case True
      let ?s1 = "s\<lparr>clock := clock s + ms, timers := []\<rparr>"
      from assms have "player_inv ?s1" by (simp add: player_inv_def)
      moreover from ok have "timer_eff t < length (effects ?s1)" "timer_eff t \<notin> set (inflight ?s1)"
        by (auto simp: timer_ok_def)
      ultimately have "player_inv (loadAudio (timer_eff t) ?s1)"
        by (intro loadAudio_inv) simp_all
      then show ?thesis
        unfolding tick_fire [OF 2 True] .
    next
      case False
      then have early: "clock s + ms < due t" by simp
      from assms 2 early show ?thesis
        unfolding tick_early [OF 2 early] by (simp add: player_inv_def timer_ok_def)
    qed
  qed
qed

lemma settle_inv:
  assumes "player_inv s" "e \<in> set (inflight s)"
  shows "player_inv (loadAudio_resume e r (s\<lparr>inflight := removeAll e (inflight s)\<rparr>))"
proof -
  let ?s1 = "s\<lparr>inflight := removeAll e (inflight s)\<rparr>"
  from assms have inv1: "player_inv ?s1"
    by (auto simp: player_inv_def timer_ok_def distinct_removeAll)
  have c: "player_inv (catch_load e ?s1)"
    using inv1 player_inv_cong [of "catch_load e ?s1" ?s1] by simp
  show ?thesis
  proof (cases r)
    case Rejected
    with c show ?thesis by (simp add: loadAudio_resume_def)
  next
    case (Fulfilled base64)
    show ?thesis
    proof (cases "active (effects s ! e)")
      case False
      with inv1 Fulfilled show ?thesis by (simp add: loadAudio_resume_def)
    next
      case True
      show ?thesis
      proof (cases "decodeAudio base64")
        case (Inl err)
        with c True Fulfilled show ?thesis by (simp add: loadAudio_resume_def)
      next
        case (Inr buffer)
        let ?s2 = "?s1\<lparr>audioCache := (audioCache s)(chunk_id (eff_chunk (effects s ! e)) \<mapsto> buffer)\<rparr>"
        from assms True have last: "Suc e = length (effects s)"
          by (auto simp: player_inv_def)
        have uniq: "e' = e" if "e' \<in> set (inflight s)" "active (effects s ! e')" for e'
        proof -
          from assms(1) that have "Suc e' = length (effects s)"
            by (simp add: player_inv_def)
          with last show ?thesis by simp
        qed
        from assms True last have "player_inv ?s2"
          by (auto simp: player_inv_def timer_ok_def distinct_removeAll dest: uniq)
        moreover have "player_inv (finish_load e buffer ?s2) = player_inv ?s2"
          by (rule player_inv_cong) simp_all
        ultimately show ?thesis
          using True Fulfilled Inr by (simp add: loadAudio_resume_def)
      qed
    qed
  qed
qed

lemma unmounted_no_timers:
  assumes "player_inv s" "\<not> mounted s"
  shows "timers s = []"
proof (cases "timers s")
  case Nil
  then show ?thesis .
next
  case (Cons t ts)
  with assms have "timer_ok s t" "\<forall>e < length (effects s). \<not> active (effects s ! e)"
    by (simp_all add: player_inv_def)
  then show ?thesis by (auto simp: timer_ok_def)
qed

lemma mount_inv:
  assumes "player_inv s" "\<not> mounted s"
  shows "player_inv (mount chunk playing s)"
proof -
  let ?s1 = "s\<lparr>mounted := True, currentChunk := chunk, isPlaying := playing, progress := 0,
          isLoading := False, error := None, retryTrigger := 0, audioContextRef := True,
          sourceRef := None, loadingTimeoutRef := None\<rparr>"
  from assms unmounted_no_timers [OF assms] have "quiet ?s1"
    by (simp add: quiet_def player_inv_def)
  then have "player_inv (run_effect ?s1)"
    by (rule run_effect_inv) simp_all
  moreover have "player_inv (toggle (run_effect ?s1)) = player_inv (run_effect ?s1)"
    by (rule player_inv_cong) simp_all
  ultimately show ?thesis
    by (simp add: mount_def)
qed

lemma player_step_inv:
  assumes "player_inv s"
  shows "player_inv (player_step ev s)"
proof (cases ev)
  case (Mount chunk playing)
  with assms show ?thesis by (simp add: mount_inv)
next
  case (ChunkChange chunk)
  show ?thesis
  proof (cases "mounted s")
    case True
    have "quiet ((cleanup_effect s)\<lparr>currentChunk := chunk\<rparr>) = quiet (cleanup_effect s)"
      by (rule quiet_cong) simp_all
    with cleanup_effect_quiet [OF assms] have "quiet ((cleanup_effect s)\<lparr>currentChunk := chunk\<rparr>)"
      by simp
    moreover from assms True have "audioContextRef s" by (simp add: player_inv_def)
    ultimately have "player_inv (run_effect ((cleanup_effect s)\<lparr>currentChunk := chunk\<rparr>))"
      using True by (intro run_effect_inv) simp_all
    with True ChunkChange show ?thesis by simp
  next
    case False
    with assms ChunkChange show ?thesis by simp
  qed
next
  case Retry
  show ?thesis
  proof (cases "mounted s \<and> error s \<noteq> None")
    case True
    have "quiet ((cleanup_effect s)\<lparr>retryTrigger := retryTrigger s + 1\<rparr>) = quiet (cleanup_effect s)"
      by (rule quiet_cong) simp_all
    with cleanup_effect_quiet [OF assms]
    have "quiet ((cleanup_effect s)\<lparr>retryTrigger := retryTrigger s + 1\<rparr>)"
      by simp
    moreover from assms True have "audioContextRef s" by (simp add: player_inv_def)
    ultimately have "player_inv (run_effect ((cleanup_effect s)\<lparr>retryTrigger := retryTrigger s + 1\<rparr>))"
      using True by (intro run_effect_inv) simp_all
    with True Retry show ?thesis by simp
  next
    case False
    with assms Retry show ?thesis by auto
  qed
next
  case (SetPlaying b)
  have "player_inv (toggle (s\<lparr>isPlaying := b\<rparr>)) = player_inv s"
    by (rule player_inv_cong) simp_all
  with assms SetPlaying show ?thesis by simp
next
  case (Tick ms)
  with assms show ?thesis by (simp add: tick_inv)
next
  case (FetchSettled e r)
  with assms show ?thesis by (simp add: settle_inv)
next
  case Unmount_player
  show ?thesis
  proof (cases "mounted s")
    case True
    have "player_inv (stopPlayback s) = player_inv s"
      by (rule player_inv_cong) simp_all
    with assms have "quiet (cleanup_effect (stopPlayback s))"
      by (intro cleanup_effect_quiet) simp
    then have "player_inv ((cleanup_effect (stopPlayback s))\<lparr>mounted := False\<rparr>)"
      by (simp add: quiet_def player_inv_def)
    with True Unmount_player show ?thesis by simp
  next
    case False
    with assms Unmount_player show ?thesis by simp
  qed
qed

lemma player_run_inv: "player_inv s \<Longrightarrow> player_inv (player_run evs s)"
  by (induction evs arbitrary: s) (simp_all add: player_step_inv)

lemma no_player_inv: "player_inv no_player"
  by (simp add: player_inv_def no_player_def)

subsection \<open>Evaluating concrete runs\<close>

lemmas player_defs =
  no_player_def mount_def run_effect_def cleanup_effect_def clear_loadingTimeout_def
  clearTimeout_def loadAudio_def loadAudio_resume_def finish_load_def catch_load_def
  toggle_def tick_def stopPlayback_def playBuffer_def Let_def

lemma decodeAudio_AAAA: "decodeAudio ''AAAA'' = Inl RangeError"
  by (simp add: decodeAudio_def atob_def strip_padding_def ascii_whitespace_def
      b64_index_def b64_alphabet_def new_Int16Array_def)



subsection \<open>Writes to the cache\<close>

lemma run_effect_cache [simp]: "audioCache (run_effect s) = audioCache s"
  by (simp add: run_effect_def Let_def clear_loadingTimeout_def clearTimeout_def split: option.splits)

lemma fire_timers_cache [simp]: "audioCache (fire_timers ts s) = audioCache s"
  by (induction ts arbitrary: s) simp_all

lemma tick_cache [simp]: "audioCache (tick ms s) = audioCache s"
  by (simp add: tick_def Let_def)

lemma mount_cache [simp]: "audioCache (mount chunk playing s) = audioCache s"
  by (simp add: mount_def)




lemma player_run_append: "player_run (evs1 @ evs2) s = player_run evs2 (player_run evs1 s)"
  by (induction evs1 arbitrary: s) simp_all






lemma with_own_cache: "p\<lparr>audioCache := audioCache p\<rparr> = p"
  by simp






subsection \<open>Debounce\<close>

lemma chunk_change_miss:
  assumes "player_inv s" "mounted s" "audioCache s (chunk_id c) = None"
  shows "player_step (ChunkChange c) s =
     (cleanup_effect s)\<lparr>currentChunk := c,
        effects := effects (cleanup_effect s) @
           [\<lparr>eff_chunk = c, eff_isPlaying = isPlaying s, active = True\<rparr>],
        timers := [\<lparr>timer_id = nextTimerId s, due = clock s + 1000, timer_eff = length (effects s)\<rparr>],
        loadingTimeoutRef := Some (nextTimerId s),
        nextTimerId := nextTimerId s + 1\<rparr>"
proof -
  let ?s1 = "(cleanup_effect s)\<lparr>currentChunk := c\<rparr>"
  have "audioCache ?s1 (chunk_id (currentChunk ?s1)) = None" "timers ?s1 = []"
    using assms by (simp_all add: cleanup_effect_timers)
  from run_effect_miss [OF this] assms(2) show ?thesis
    by simp
qed

lemma retry_miss:
  assumes "player_inv s" "mounted s" "error s \<noteq> None" "audioCache s (chunk_id (currentChunk s)) = None"
  shows "player_step Retry s =
     (cleanup_effect s)\<lparr>retryTrigger := retryTrigger s + 1,
        effects := effects (cleanup_effect s) @
           [\<lparr>eff_chunk = currentChunk s, eff_isPlaying = isPlaying s, active = True\<rparr>],
        timers := [\<lparr>timer_id = nextTimerId s, due = clock s + 1000, timer_eff = length (effects s)\<rparr>],
        loadingTimeoutRef := Some (nextTimerId s),
        nextTimerId := nextTimerId s + 1\<rparr>"
proof -
  let ?s1 = "(cleanup_effect s)\<lparr>retryTrigger := retryTrigger s + 1\<rparr>"
  have "audioCache ?s1 (chunk_id (currentChunk ?s1)) = None" "timers ?s1 = []"
    using assms by (simp_all add: cleanup_effect_timers)
  from run_effect_miss [OF this] assms(2,3) show ?thesis
    by simp
qed

text \<open>A change to an uncached chunk followed by less than a second: only the timer moves.\<close>

lemma change_then_wait:
  assumes "player_inv s" "mounted s" "audioCache s (chunk_id c) = None" "gap < 1000"
  shows "player_inv (player_run [ChunkChange c, Tick gap] s)"
    and "mounted (player_run [ChunkChange c, Tick gap] s)"
    and "fetches (player_run [ChunkChange c, Tick gap] s) = fetches s"
    and "audioCache (player_run [ChunkChange c, Tick gap] s) = audioCache s"
proof -
  let ?s1 = "player_step (ChunkChange c) s"
  let ?t = "\<lparr>timer_id = nextTimerId s, due = clock s + 1000, timer_eff = length (effects s)\<rparr>"
  note s1 = chunk_change_miss [OF assms(1-3)]
  have t: "timers ?s1 = [?t]" and "clock ?s1 = clock s"
    unfolding s1 by simp_all
  with assms(4) have early: "clock ?s1 + gap < due ?t" by simp
  have run: "player_run [ChunkChange c, Tick gap] s = ?s1\<lparr>clock := clock ?s1 + gap\<rparr>"
    using tick_early [OF t early] by simp
  show "player_inv (player_run [ChunkChange c, Tick gap] s)"
    using assms(1) by (rule player_run_inv)
  show "mounted (player_run [ChunkChange c, Tick gap] s)"
    "fetches (player_run [ChunkChange c, Tick gap] s) = fetches s"
    "audioCache (player_run [ChunkChange c, Tick gap] s) = audioCache s"
    unfolding run s1 using assms(2) by simp_all
qed

lemma rapid_keeps:
  assumes "player_inv s" "mounted s"
    and "\<forall>(c, gap) \<in> set cs. gap < 1000 \<and> audioCache s (chunk_id c) = None"
  shows "player_inv (player_run (rapid cs) s) \<and> mounted (player_run (rapid cs) s) \<and>
         fetches (player_run (rapid cs) s) = fetches s \<and>
         audioCache (player_run (rapid cs) s) = audioCache s"
  using assms
proof (induction cs arbitrary: s)
  case Nil
  then show ?case by simp
next
  case (Cons p cs)
  obtain c gap where p: "p = (c, gap)" by (cases p)
  from Cons.prems p have h: "gap < 1000" "audioCache s (chunk_id c) = None" by simp_all
  let ?s2 = "player_run [ChunkChange c, Tick gap] s"
  note w = change_then_wait [OF Cons.prems(1,2) h(2,1)]
  from Cons.prems(3) w(4)
  have "\<forall>(c, gap) \<in> set cs. gap < 1000 \<and> audioCache ?s2 (chunk_id c) = None"
    by auto
  from Cons.IH [OF w(1,2) this] w(3,4) p show ?case
    by simp
qed

lemma change_then_fire:
  assumes "player_inv s" "mounted s" "audioCache s (chunk_id c) = None" "1000 \<le> T"
  shows "fetches (player_run [ChunkChange c, Tick T] s) = fetches s @ [c]"
    and "error (player_run [ChunkChange c, Tick T] s) = None"
    and "isLoading (player_run [ChunkChange c, Tick T] s)"
proof -
  let ?s1 = "player_step (ChunkChange c) s"
  let ?t = "\<lparr>timer_id = nextTimerId s, due = clock s + 1000, timer_eff = length (effects s)\<rparr>"
  note s1 = chunk_change_miss [OF assms(1-3)]
  have t: "timers ?s1 = [?t]" and "clock ?s1 = clock s"
    unfolding s1 by simp_all
  with assms(4) have due: "due ?t \<le> clock ?s1 + T" by simp
  let ?s2 = "?s1\<lparr>clock := clock ?s1 + T, timers := []\<rparr>"
  have run: "player_run [ChunkChange c, Tick T] s = loadAudio (length (effects s)) ?s2"
    using tick_fire [OF t due] by simp
  from assms(1,2) have ctx: "audioContextRef ?s2"
    unfolding s1 by (simp add: player_inv_def)
  have eff: "eff_chunk (effects ?s2 ! length (effects s)) = c"
    unfolding s1 by (simp add: nth_append)
  with assms(3) have miss: "audioCache ?s2 (chunk_id (eff_chunk (effects ?s2 ! length (effects s)))) = None"
    unfolding s1 by simp
  have f: "fetches ?s2 = fetches s"
    unfolding s1 by simp
  show "fetches (player_run [ChunkChange c, Tick T] s) = fetches s @ [c]"
    "error (player_run [ChunkChange c, Tick T] s) = None"
    "isLoading (player_run [ChunkChange c, Tick T] s)"
    unfolding run loadAudio_miss [OF ctx miss] using eff f by simp_all
qed

text \<open>
  Claim C6. In a mounted player, let chunks that have no cache entry be selected one after
  another, each less than a second after the one before, and let at least a second pass
  after the last one. Then \<^verbatim>\<open>generateSpeech\<close> is called exactly once more, for the last chunk.
  Right after the last change no fetch has been made and the only pending timer is the new
  one, due a full second later, belonging to the effect of the last chunk: every change
  cancels the timer before it and starts its own.
\<close>

theorem debounce_one_fetch:
  assumes "player_inv s" and "mounted s"
    and "\<forall>(c, gap) \<in> set cs. gap < 1000 \<and> audioCache s (chunk_id c) = None"
    and "audioCache s (chunk_id c_last) = None" and "1000 \<le> T"
  shows "fetches (player_run (rapid cs @ [ChunkChange c_last, Tick T]) s) = fetches s @ [c_last] \<and>
         fetches (player_run (rapid cs @ [ChunkChange c_last]) s) = fetches s \<and>
         timers (player_run (rapid cs @ [ChunkChange c_last]) s) =
           [\<lparr>timer_id = nextTimerId (player_run (rapid cs) s),
             due = clock (player_run (rapid cs) s) + 1000,
             timer_eff = length (effects (player_run (rapid cs) s))\<rparr>] \<and>
         eff_chunk (effects (player_run (rapid cs @ [ChunkChange c_last]) s) !
                      length (effects (player_run (rapid cs) s))) = c_last"
proof -
  let ?s' = "player_run (rapid cs) s"
  from rapid_keeps [OF assms(1-3)]
  have k: "player_inv ?s'" "mounted ?s'" "fetches ?s' = fetches s" "audioCache ?s' = audioCache s"
    by simp_all
  from k(4) assms(4) have miss: "audioCache ?s' (chunk_id c_last) = None" by simp
  from change_then_fire(1) [OF k(1,2) miss assms(5)] k(3)
  have "fetches (player_run (rapid cs @ [ChunkChange c_last, Tick T]) s) = fetches s @ [c_last]"
    by (simp add: player_run_append)
  moreover have "player_run (rapid cs @ [ChunkChange c_last]) s = player_step (ChunkChange c_last) ?s'"
    by (simp add: player_run_append)
  ultimately show ?thesis
    unfolding chunk_change_miss [OF k(1,2) miss] using k(3) by (simp add: nth_append)
qed

theorem debounce_one_fetch_witness:
  "player_inv (player_run [Mount \<lparr>chunk_id = 1, title = ''a'', content = ''x''\<rparr> True] no_player) \<and>
   mounted (player_run [Mount \<lparr>chunk_id = 1, title = ''a'', content = ''x''\<rparr> True] no_player) \<and>
   (300::nat) < 1000 \<and> (999::nat) < 1000 \<and> (1000::nat) \<le> 1000 \<and>
   audioCache (player_run [Mount \<lparr>chunk_id = 1, title = ''a'', content = ''x''\<rparr> True] no_player) 2 = None \<and>
   audioCache (player_run [Mount \<lparr>chunk_id = 1, title = ''a'', content = ''x''\<rparr> True] no_player) 3 = None \<and>
   audioCache (player_run [Mount \<lparr>chunk_id = 1, title = ''a'', content = ''x''\<rparr> True] no_player) 4 = None \<and>
   fetches
     (player_run
        (rapid [(\<lparr>chunk_id = 2, title = ''b'', content = ''y''\<rparr>, 300),
                (\<lparr>chunk_id = 3, title = ''c'', content = ''z''\<rparr>, 999)] @
         [ChunkChange \<lparr>chunk_id = 4, title = ''d'', content = ''w''\<rparr>, Tick 1000])
        (player_run [Mount \<lparr>chunk_id = 1, title = ''a'', content = ''x''\<rparr> True] no_player)) =
     [\<lparr>chunk_id = 4, title = ''d'', content = ''w''\<rparr>]"
proof -
  let ?s = "player_run [Mount \<lparr>chunk_id = 1, title = ''a'', content = ''x''\<rparr> True] no_player"
  have inv: "player_inv ?s"
    using no_player_inv by (rule player_run_inv)
  have m: "mounted ?s" and f: "fetches ?s = []" and c: "audioCache ?s = Map.empty"
    by (simp_all add: player_defs)
  have h: "\<forall>(c, gap) \<in> set [(\<lparr>chunk_id = 2, title = ''b'', content = ''y''\<rparr>, 300::nat),
                (\<lparr>chunk_id = 3, title = ''c'', content = ''z''\<rparr>, 999)].
             gap < 1000 \<and> audioCache ?s (chunk_id c) = None"
    by (simp add: no_player_def)
  have l: "audioCache ?s (chunk_id \<lparr>chunk_id = 4, title = ''d'', content = ''w''\<rparr>) = None"
    by (simp add: no_player_def)
  from debounce_one_fetch [OF inv m h l, of 1000] f
  have "fetches
     (player_run
        (rapid [(\<lparr>chunk_id = 2, title = ''b'', content = ''y''\<rparr>, 300),
                (\<lparr>chunk_id = 3, title = ''c'', content = ''z''\<rparr>, 999)] @
         [ChunkChange \<lparr>chunk_id = 4, title = ''d'', content = ''w''\<rparr>, Tick 1000]) ?s) =
     [\<lparr>chunk_id = 4, title = ''d'', content = ''w''\<rparr>]"
    by simp
  with inv m show ?thesis
    by (simp add: no_player_def)
qed

subsection \<open>A failed load\<close>

text \<open>
  A load that was superseded before its fetch failed falls under the cancellation rule: its
  late result is discarded, and the error state stays as the newer load left it.
\<close>

lemma superseded_failure_discarded:
  "fetches (player_run [Mount \<lparr>chunk_id = 1, title = ''a'', content = ''x''\<rparr> False, Tick 1000,
              ChunkChange \<lparr>chunk_id = 2, title = ''b'', content = ''y''\<rparr>] no_player) =
     [\<lparr>chunk_id = 1, title = ''a'', content = ''x''\<rparr>] \<and>
   inflight (player_run [Mount \<lparr>chunk_id = 1, title = ''a'', content = ''x''\<rparr> False, Tick 1000,
              ChunkChange \<lparr>chunk_id = 2, title = ''b'', content = ''y''\<rparr>] no_player) = [0] \<and>
   inflight (player_run [Mount \<lparr>chunk_id = 1, title = ''a'', content = ''x''\<rparr> False, Tick 1000,
              ChunkChange \<lparr>chunk_id = 2, title = ''b'', content = ''y''\<rparr>,
              FetchSettled 0 Rejected] no_player) = [] \<and>
   error (player_run [Mount \<lparr>chunk_id = 1, title = ''a'', content = ''x''\<rparr> False, Tick 1000,
              ChunkChange \<lparr>chunk_id = 2, title = ''b'', content = ''y''\<rparr>,
              FetchSettled 0 Rejected] no_player) = None"
  by (simp add: player_defs)

lemma active_mounted:
  assumes "player_inv s" "e < length (effects s)" "active (effects s ! e)"
  shows "mounted s" "Suc e = length (effects s)" "eff_chunk (effects s ! e) = currentChunk s"
proof -
  from assms show m: "mounted s" by (auto simp: player_inv_def)
  from assms show l: "Suc e = length (effects s)" by (simp add: player_inv_def)
  from assms(1) m have "effects s \<noteq> []" "eff_chunk (last (effects s)) = currentChunk s"
    by (simp_all add: player_inv_def)
  moreover from l have "length (effects s) - 1 = e" by simp
  ultimately show "eff_chunk (effects s ! e) = currentChunk s"
    by (simp add: last_conv_nth)
qed

lemma retry_then_fire:
  assumes "player_inv s" "mounted s" "error s \<noteq> None"
    "audioCache s (chunk_id (currentChunk s)) = None" "1000 \<le> T"
  shows "fetches (player_run [Retry, Tick T] s) = fetches s @ [currentChunk s]"
    and "error (player_run [Retry, Tick T] s) = None"
    and "isLoading (player_run [Retry, Tick T] s)"
proof -
  let ?s1 = "player_step Retry s"
  let ?t = "\<lparr>timer_id = nextTimerId s, due = clock s + 1000, timer_eff = length (effects s)\<rparr>"
  note s1 = retry_miss [OF assms(1-4)]
  have t: "timers ?s1 = [?t]" and "clock ?s1 = clock s"
    unfolding s1 by simp_all
  with assms(5) have due: "due ?t \<le> clock ?s1 + T" by simp
  let ?s2 = "?s1\<lparr>clock := clock ?s1 + T, timers := []\<rparr>"
  have run: "player_run [Retry, Tick T] s = loadAudio (length (effects s)) ?s2"
    using tick_fire [OF t due] by simp
  from assms(1,2) have ctx: "audioContextRef ?s2"
    unfolding s1 by (simp add: player_inv_def)
  have eff: "eff_chunk (effects ?s2 ! length (effects s)) = currentChunk s"
    unfolding s1 by (simp add: nth_append)
  with assms(4) have miss: "audioCache ?s2 (chunk_id (eff_chunk (effects ?s2 ! length (effects s)))) = None"
    unfolding s1 by simp
  have f: "fetches ?s2 = fetches s"
    unfolding s1 by simp
  show "fetches (player_run [Retry, Tick T] s) = fetches s @ [currentChunk s]"
    "error (player_run [Retry, Tick T] s) = None"
    "isLoading (player_run [Retry, Tick T] s)"
    unfolding run loadAudio_miss [OF ctx miss] using eff f by simp_all
qed

lemma failed_settle:
  assumes "r = Rejected \<or> (\<exists>base64 err. r = Fulfilled base64 \<and> decodeAudio base64 = Inl err)"
  shows "loadAudio_resume e r s = catch_load e s"
  using assms by (auto simp: loadAudio_resume_def catch_load_def)

text \<open>
  Claim C7. When the fetch of an in-flight load is rejected, or its payload cannot be
  decoded, the cache is unchanged. The load in effect shows the error message and clears
  \<open>isLoading\<close>, and pressing retry runs the load path again: after the one-second timer a new
  fetch is made for the same chunk, with the error cleared and \<open>isLoading\<close> set. A load that
  had been torn down before the failure arrived has its late result discarded, as the
  cancellation rule says, and leaves the error state as it was.
\<close>

theorem failed_load_atomic:
  assumes "player_inv s" and "e \<in> set (inflight s)"
    and "r = Rejected \<or> (\<exists>base64 err. r = Fulfilled base64 \<and> decodeAudio base64 = Inl err)"
  shows "audioCache (player_step (FetchSettled e r) s) = audioCache s \<and>
         (\<not> active (effects s ! e) \<longrightarrow>
            error (player_step (FetchSettled e r) s) = error s \<and>
            isLoading (player_step (FetchSettled e r) s) = isLoading s) \<and>
         (active (effects s ! e) \<longrightarrow>
            error (player_step (FetchSettled e r) s) = Some ''Cota excedida ou erro de rede.'' \<and>
            \<not> isLoading (player_step (FetchSettled e r) s) \<and>
            (\<forall>T. 1000 \<le> T \<longrightarrow>
               fetches (player_run [Retry, Tick T] (player_step (FetchSettled e r) s)) =
                 fetches s @ [eff_chunk (effects s ! e)] \<and>
               error (player_run [Retry, Tick T] (player_step (FetchSettled e r) s)) = None \<and>
               isLoading (player_run [Retry, Tick T] (player_step (FetchSettled e r) s))))"
proof -
  let ?s' = "player_step (FetchSettled e r) s"
  have s': "?s' = catch_load e (s\<lparr>inflight := removeAll e (inflight s)\<rparr>)"
    using assms(2) failed_settle [OF assms(3)] by simp
  have cache: "audioCache ?s' = audioCache s"
    unfolding s' by simp
  have inactive: "error ?s' = error s \<and> isLoading ?s' = isLoading s" if "\<not> active (effects s ! e)"
    unfolding s' using that by (simp add: catch_load_def)
  have act: "error ?s' = Some ''Cota excedida ou erro de rede.'' \<and> \<not> isLoading ?s' \<and>
            (\<forall>T. 1000 \<le> T \<longrightarrow>
               fetches (player_run [Retry, Tick T] ?s') = fetches s @ [eff_chunk (effects s ! e)] \<and>
               error (player_run [Retry, Tick T] ?s') = None \<and>
               isLoading (player_run [Retry, Tick T] ?s'))"
    if a: "active (effects s ! e)"
  proof -
    from assms(1,2) have len: "e < length (effects s)"
      by (simp add: player_inv_def)
    note am = active_mounted [OF assms(1) len a]
    from assms(1,2) a have miss: "audioCache s (chunk_id (eff_chunk (effects s ! e))) = None"
      by (simp add: player_inv_def)
    have err: "error ?s' = Some ''Cota excedida ou erro de rede.''" "\<not> isLoading ?s'"
      unfolding s' using a by (simp_all add: catch_load_def)
    have inv': "player_inv ?s'"
      using assms(1) by (rule player_step_inv)
    have m': "mounted ?s'" "currentChunk ?s' = currentChunk s" "fetches ?s' = fetches s"
      unfolding s' using am(1) by simp_all
    from err(1) have e': "error ?s' \<noteq> None" by simp
    from miss am(3) cache m'(2) have miss': "audioCache ?s' (chunk_id (currentChunk ?s')) = None"
      by simp
    have "fetches (player_run [Retry, Tick T] ?s') = fetches s @ [eff_chunk (effects s ! e)] \<and>
               error (player_run [Retry, Tick T] ?s') = None \<and>
               isLoading (player_run [Retry, Tick T] ?s')" if "1000 \<le> T" for T
      using retry_then_fire [OF inv' m'(1) e' miss' that] m'(2,3) am(3) by simp
    with err show ?thesis by blast
  qed
  from cache inactive act show ?thesis
    by blast
qed

theorem failed_load_atomic_witness:
  "player_inv (player_run [Mount \<lparr>chunk_id = 1, title = ''a'', content = ''x''\<rparr> True, Tick 1000] no_player) \<and>
   0 \<in> set (inflight
     (player_run [Mount \<lparr>chunk_id = 1, title = ''a'', content = ''x''\<rparr> True, Tick 1000] no_player)) \<and>
   decodeAudio ''AAAA'' = Inl RangeError \<and>
   active (effects
     (player_run [Mount \<lparr>chunk_id = 1, title = ''a'', content = ''x''\<rparr> True, Tick 1000] no_player) ! 0) \<and>
   (1000::nat) \<le> 1500 \<and>
   audioCache
     (player_run [Mount \<lparr>chunk_id = 1, title = ''a'', content = ''x''\<rparr> True, Tick 1000,
                  FetchSettled 0 (Fulfilled ''AAAA'')] no_player) 1 = None \<and>
   error
     (player_run [Mount \<lparr>chunk_id = 1, title = ''a'', content = ''x''\<rparr> True, Tick 1000,
                  FetchSettled 0 (Fulfilled ''AAAA'')] no_player) =
     Some ''Cota excedida ou erro de rede.'' \<and>
   fetches
     (player_run [Mount \<lparr>chunk_id = 1, title = ''a'', content = ''x''\<rparr> True, Tick 1000,
                  FetchSettled 0 (Fulfilled ''AAAA''), Retry, Tick 1500] no_player) =
     [\<lparr>chunk_id = 1, title = ''a'', content = ''x''\<rparr>, \<lparr>chunk_id = 1, title = ''a'', content = ''x''\<rparr>]"
proof -
  let ?c1 = "\<lparr>chunk_id = 1, title = ''a'', content = ''x''\<rparr>"
  let ?s = "player_run [Mount ?c1 True, Tick 1000] no_player"
  have inv: "player_inv ?s"
    using no_player_inv by (rule player_run_inv)
  have i: "0 \<in> set (inflight ?s)" and a: "active (effects ?s ! 0)"
    and f: "fetches ?s = [?c1]" and c: "audioCache ?s = Map.empty"
    and e: "eff_chunk (effects ?s ! 0) = ?c1"
    by (simp_all add: player_defs)
  have r: "Fulfilled ''AAAA'' = Rejected \<or>
      (\<exists>base64 err. Fulfilled ''AAAA'' = Fulfilled base64 \<and> decodeAudio base64 = Inl err)"
    using decodeAudio_AAAA by blast
  note w = failed_load_atomic [OF inv i r]
  from w a have 1: "audioCache (player_step (FetchSettled 0 (Fulfilled ''AAAA'')) ?s) = audioCache ?s"
    "error (player_step (FetchSettled 0 (Fulfilled ''AAAA'')) ?s) = Some ''Cota excedida ou erro de rede.''"
    by blast+
  from w a have "\<forall>T. 1000 \<le> T \<longrightarrow>
     fetches (player_run [Retry, Tick T] (player_step (FetchSettled 0 (Fulfilled ''AAAA'')) ?s)) =
       fetches ?s @ [eff_chunk (effects ?s ! 0)]"
    by blast
  then have 2: "fetches (player_run [Retry, Tick 1500] (player_step (FetchSettled 0 (Fulfilled ''AAAA'')) ?s)) =
       fetches ?s @ [eff_chunk (effects ?s ! 0)]"
    by simp
  have p1: "player_run [Mount ?c1 True, Tick 1000, FetchSettled 0 (Fulfilled ''AAAA'')] no_player =
      player_step (FetchSettled 0 (Fulfilled ''AAAA'')) ?s"
    by simp
  have p2: "player_run [Mount ?c1 True, Tick 1000, FetchSettled 0 (Fulfilled ''AAAA''), Retry, Tick 1500] no_player =
      player_run [Retry, Tick 1500] (player_step (FetchSettled 0 (Fulfilled ''AAAA'')) ?s)"
    by simp
  show ?thesis
    unfolding p1 p2 1 2 using inv i a decodeAudio_AAAA f e by (simp add: no_player_def)
qed

end
